theory Spec2Isabelle
  imports
    Main
    "HOL-Library.Multiset"
    "HOL-Library.Char_ord"
    "HOL-Library.List_Lexorder"
    "HOL-Library.Product_Lexorder"
begin

section \<open>Data model: deserialized snapshots\<close>

text \<open>
  The scripts work on JSON that has already been deserialized: a snapshot is a list of
  submission dicts, each with a nested \<open>details.directReplies\<close> list of reply dicts.
  A key that may be absent (the code reads it with \<open>.get\<close>) is an option field, absent
  being \<open>None\<close>. Python's unbounded integers are \<open>int\<close>, strings are \<open>string\<close>.
\<close>

text \<open>\<open>reply['content']\<close>: the key \<open>rating\<close> may be absent (\<open>None\<close>), and the dict
  under it may lack \<open>value\<close> (\<open>Some None\<close>). \<open>c_text\<close> stands for the rest of the payload.\<close>

record content =
  c_rating :: "int option option"
  c_text :: string

text \<open>A reply (review entry) dict: keys \<open>id\<close>, \<open>version\<close>, \<open>mdate\<close>, \<open>number\<close>,
  \<open>invitations\<close> (only ever read as \<open>.get('invitations', [])\<close>, so an absent key is the
  empty list) and \<open>content\<close>.\<close>

record review =
  r_id :: "string option"
  r_version :: "int option"
  r_mdate :: "int option"
  r_number :: "int option"
  r_invitations :: "string list"
  r_content :: "content option"

text \<open>The dict under \<open>submission['details']\<close>; only its key \<open>directReplies\<close> is used.\<close>

record details =
  directReplies :: "review list option"

text \<open>A submission dict: keys \<open>id\<close>, \<open>number\<close>, \<open>details\<close>; \<open>s_title\<close> and \<open>s_mdate\<close> stand
  for the scalar metadata the merge copies but never inspects. The record is polymorphic
  in what sits under \<open>details\<close>: the dict itself (a deserialized tree), or a reference to
  it (the store model of the last section).\<close>

record 'd submission =
  s_id :: "string option"
  s_number :: "int option"
  s_title :: string
  s_mdate :: int
  s_details :: "'d option"

type_synonym snapshot = "string \<times> details submission list"

datatype error = IndexError

section \<open>Python dictionaries and truthiness\<close>

text \<open>A dict is an association list in insertion order with distinct keys, as Python
  iterates it. \<open>dict_set\<close> is \<open>d[k] = v\<close>: an existing key keeps its place.\<close>

definition dict_get :: "('k \<times> 'v) list \<Rightarrow> 'k \<Rightarrow> 'v option" where
  "dict_get d k = map_of d k"

fun dict_set :: "'k \<Rightarrow> 'v \<Rightarrow> ('k \<times> 'v) list \<Rightarrow> ('k \<times> 'v) list" where
  "dict_set k v [] = [(k, v)]"
| "dict_set k v (p # ps) = (if fst p = k then (k, v) # ps else p # dict_set k v ps)"

text \<open>\<open>if k not in d: d[k] = v\<close>\<close>

definition dict_init :: "'k \<Rightarrow> 'v \<Rightarrow> ('k \<times> 'v) list \<Rightarrow> ('k \<times> 'v) list" where
  "dict_init k v d = (case dict_get d k of None \<Rightarrow> dict_set k v d | Some _ \<Rightarrow> d)"

text \<open>\<open>if x:\<close> on the result of \<open>.get('id')\<close>: neither \<open>None\<close> nor the empty string.\<close>

fun truthy_id :: "string option \<Rightarrow> bool" where
  "truthy_id None = False"
| "truthy_id (Some s) = (s \<noteq> [])"

text \<open>\<open>x.get(key, 0)\<close> on an integer field.\<close>

fun get0 :: "int option \<Rightarrow> int" where
  "get0 None = 0"
| "get0 (Some n) = n"

section \<open>merge.py: \<open>merge_reviews\<close>\<close>

text \<open>\<open>submission.get('details', {}).get('directReplies', [])\<close>\<close>

definition direct_replies :: "details submission \<Rightarrow> review list" where
  "direct_replies submission =
     (case s_details submission of
        None \<Rightarrow> []
      | Some d \<Rightarrow> (case directReplies d of None \<Rightarrow> [] | Some rs \<Rightarrow> rs))"

text \<open>\<open>all_files_data.sort(key=lambda x: (x[0] != 'merged', x[0]))\<close>. Python's sort is
  stable and so is \<open>sort_key\<close>; tuples and strings compare lexicographically, \<open>False < True\<close>.\<close>

definition snapshot_key :: "string \<times> 'a \<Rightarrow> bool \<times> string" where
  "snapshot_key x = (fst x \<noteq> ''merged'', fst x)"

definition sort_snapshots :: "(string \<times> 'a) list \<Rightarrow> (string \<times> 'a) list" where
  "sort_snapshots all_files_data = sort_key snapshot_key all_files_data"

text \<open>The loop over \<open>reversed(all_files_data)\<close> that breaks at the first dated file.\<close>

definition find_latest :: "(string \<times> 'a) list \<Rightarrow> (string \<times> 'a) option" where
  "find_latest all_files_data = find (\<lambda>x. fst x \<noteq> ''merged'') (rev all_files_data)"

text \<open>Lines 106-117: the submissions of the metadata source. \<open>not latest_submissions\<close>
  holds for \<open>None\<close> and for the empty list; \<open>all_files_data[-1]\<close> raises on an empty list.\<close>

definition latest_submissions :: "(string \<times> 'a list) list \<Rightarrow> error + 'a list" where
  "latest_submissions all_files_data =
     (case find_latest all_files_data of
        Some (date_str, submissions) \<Rightarrow>
          if submissions \<noteq> [] then Inr submissions
          else if all_files_data = [] then Inl IndexError
          else Inr (snd (last all_files_data))
      | None \<Rightarrow>
          if all_files_data = [] then Inl IndexError
          else Inr (snd (last all_files_data)))"

text \<open>Lines 122-126: \<open>merged_submissions[sub_id] = submission.copy()\<close> for every
  submission of the metadata source with a truthy id.\<close>

definition index_submission ::
  "'d submission \<Rightarrow> (string \<times> 'd submission) list \<Rightarrow> (string \<times> 'd submission) list" where
  "index_submission submission merged_submissions =
     (case s_id submission of
        None \<Rightarrow> merged_submissions
      | Some sub_id \<Rightarrow>
          if sub_id \<noteq> [] then dict_set sub_id submission merged_submissions
          else merged_submissions)"

definition index_submissions :: "'d submission list \<Rightarrow> (string \<times> 'd submission) list" where
  "index_submissions submissions = fold index_submission submissions []"

text \<open>Lines 150-173, the body of the loop over one submission's replies: skip a reply
  without id, create the version list if needed, and append the reply unless an entry
  with the same \<open>(version, mdate)\<close> is already there.\<close>

definition same_version :: "review \<Rightarrow> review \<Rightarrow> bool" where
  "same_version existing_review review \<longleftrightarrow>
     get0 (r_version existing_review) = get0 (r_version review) \<and>
     get0 (r_mdate existing_review) = get0 (r_mdate review)"

definition add_review ::
  "review \<Rightarrow> (string \<times> review list) list \<Rightarrow> (string \<times> review list) list" where
  "add_review review coll =
     (case r_id review of
        None \<Rightarrow> coll
      | Some review_id \<Rightarrow>
          if review_id = [] then coll
          else
            let coll1 = dict_init review_id [] coll;
                existing = (case dict_get coll1 review_id of None \<Rightarrow> [] | Some vs \<Rightarrow> vs);
                is_duplicate = list_ex (\<lambda>existing_review. same_version existing_review review) existing
            in if is_duplicate then coll1
               else dict_set review_id (existing @ [review]) coll1)"

type_synonym review_collections = "(string \<times> (string \<times> review list) list) list"

text \<open>Lines 137-173, the body of the loop over one file's submissions. The replies are
  passed in, read from the submission by the caller.\<close>

definition collect_submission ::
  "string option \<Rightarrow> review list \<Rightarrow> review_collections \<Rightarrow> review_collections" where
  "collect_submission sub_id_opt replies rc =
     (case sub_id_opt of
        None \<Rightarrow> rc
      | Some sub_id \<Rightarrow>
          if sub_id = [] then rc
          else
            let rc1 = dict_init sub_id [] rc;
                coll = (case dict_get rc1 sub_id of None \<Rightarrow> [] | Some c \<Rightarrow> c)
            in dict_set sub_id (fold add_review replies coll) rc1)"

definition collect_file :: "snapshot \<Rightarrow> review_collections \<Rightarrow> review_collections" where
  "collect_file file rc =
     fold (\<lambda>submission. collect_submission (s_id submission) (direct_replies submission))
          (snd file) rc"

definition collect_reviews :: "snapshot list \<Rightarrow> review_collections" where
  "collect_reviews all_files_data = fold collect_file all_files_data []"

text \<open>Lines 184-194: flatten the version lists of one submission and sort them by
  \<open>(number, version, mdate)\<close>, each defaulting to 0.\<close>

definition review_key :: "review \<Rightarrow> int \<times> int \<times> int" where
  "review_key r = (get0 (r_number r), get0 (r_version r), get0 (r_mdate r))"

definition all_review_versions :: "(string \<times> review list) list \<Rightarrow> review list" where
  "all_review_versions coll = sort_key review_key (concat (map snd coll))"

text \<open>Lines 182-200 for one entry of \<open>merged_submissions\<close>: if the id has collected
  reviews, \<open>submission['details']['directReplies']\<close> is overwritten, \<open>details\<close> being
  created when absent.\<close>

definition attach_reviews ::
  "review_collections \<Rightarrow> string \<times> details submission \<Rightarrow> string \<times> details submission" where
  "attach_reviews rc entry =
     (case dict_get rc (fst entry) of
        None \<Rightarrow> entry
      | Some coll \<Rightarrow>
          let d = (case s_details (snd entry) of None \<Rightarrow> \<lparr>directReplies = None\<rparr> | Some d \<Rightarrow> d)
          in (fst entry,
              (snd entry)\<lparr>s_details := Some (d\<lparr>directReplies := Some (all_review_versions coll)\<rparr>)\<rparr>))"

text \<open>The whole function, as a function from the deserialized trees to the returned list.
  In a deserialized JSON document no two records share a nested dict, so for the returned
  value the writes of lines 196-200 are updates of the copy's \<open>details\<close>. What the call does
  to the caller's objects is modelled with a store in \<open>merge_reviews_store\<close> below, and
  \<open>merge_reviews_store_refines\<close> shows that both models return the same submissions.\<close>

definition merge_reviews :: "snapshot list \<Rightarrow> error + details submission list" where
  "merge_reviews all_files_data0 =
     (let all_files_data = sort_snapshots all_files_data0 in
      case latest_submissions all_files_data of
        Inl e \<Rightarrow> Inl e
      | Inr latest \<Rightarrow>
          let merged_submissions = index_submissions latest;
              rc = collect_reviews all_files_data;
              merged = map (attach_reviews rc) merged_submissions;
              result = map snd merged
          in Inr (sort_key (\<lambda>s. get0 (s_number s)) result))"

section \<open>merge.py: \<open>analyze_data\<close>\<close>

text \<open>The \<open>stats\<close> dict. \<open>version_distribution\<close> is a \<open>defaultdict(int)\<close>.\<close>

record stats =
  total_submissions :: nat
  submissions_with_reviews :: nat
  total_review_entries :: nat
  unique_reviews :: nat
  multi_version_count :: nat
  version_distribution :: "(nat \<times> nat) list"

text \<open>\<open>d[k].append(x)\<close> on a \<open>defaultdict(list)\<close>, and \<open>d[k] += 1\<close> on a
  \<open>defaultdict(int)\<close>.\<close>

definition dict_append :: "'k \<Rightarrow> 'v \<Rightarrow> ('k \<times> 'v list) list \<Rightarrow> ('k \<times> 'v list) list" where
  "dict_append k x d =
     dict_set k ((case dict_get d k of None \<Rightarrow> [] | Some xs \<Rightarrow> xs) @ [x]) d"

definition dict_incr :: "'k \<Rightarrow> ('k \<times> nat) list \<Rightarrow> ('k \<times> nat) list" where
  "dict_incr k d = dict_set k ((case dict_get d k of None \<Rightarrow> 0 | Some n \<Rightarrow> n) + 1) d"

text \<open>Lines 53-57: group one review under its id and record the id in the global set.\<close>

definition group_review ::
  "review \<Rightarrow> (string \<times> review list) list \<times> string set
     \<Rightarrow> (string \<times> review list) list \<times> string set" where
  "group_review review acc =
     (case r_id review of
        None \<Rightarrow> acc
      | Some review_id \<Rightarrow>
          if review_id = [] then acc
          else (dict_append review_id review (fst acc), insert review_id (snd acc)))"

text \<open>Lines 44-66: the loop body for one submission; the state is \<open>stats\<close> together with
  the set \<open>all_review_ids\<close>.\<close>

definition analyze_submission :: "details submission \<Rightarrow> stats \<times> string set \<Rightarrow> stats \<times> string set" where
  "analyze_submission submission acc =
     (let reviews = direct_replies submission in
      if reviews \<noteq> [] then
        let st1 = (fst acc)\<lparr>submissions_with_reviews := submissions_with_reviews (fst acc) + 1,
                            total_review_entries := total_review_entries (fst acc) + length reviews\<rparr>;
            grouped = fold group_review reviews ([], snd acc);
            unique = length (fst grouped);
            total_versions = length reviews
        in if total_versions > unique then
             (st1\<lparr>multi_version_count := multi_version_count st1 + 1,
                  version_distribution := dict_incr (total_versions - unique) (version_distribution st1)\<rparr>,
              snd grouped)
           else (st1, snd grouped)
      else acc)"

text \<open>\<open>analyze_data(data, title)\<close>; the argument \<open>title\<close> is not used by the function.\<close>

definition analyze_data :: "details submission list \<Rightarrow> stats" where
  "analyze_data data =
     (let init = \<lparr>total_submissions = length data, submissions_with_reviews = 0,
                  total_review_entries = 0, unique_reviews = 0, multi_version_count = 0,
                  version_distribution = []\<rparr>;
          final = fold analyze_submission data (init, {})
      in (fst final)\<lparr>unique_reviews := card (snd final)\<rparr>)"

section \<open>generate_static_site.py: the change classifier\<close>

text \<open>\<open>sub in s\<close> on strings: \<open>sub\<close> occurs in \<open>s\<close> as a contiguous run.\<close>

fun str_contains :: "string \<Rightarrow> string \<Rightarrow> bool" where
  "str_contains sub [] = (sub = [])"
| "str_contains sub (c # cs) = (take (length sub) (c # cs) = sub \<or> str_contains sub cs)"

text \<open>\<open>any('Official_Review' in inv for inv in invitations)\<close>\<close>

definition is_official :: "review \<Rightarrow> bool" where
  "is_official reply = list_ex (str_contains ''Official_Review'') (r_invitations reply)"

text \<open>One entry of \<open>rating_history\<close>.\<close>

record rating_entry =
  e_version :: int
  e_rating :: int
  e_date :: int

text \<open>Lines 56-68, the body of the first loop of \<open>get_rating_changes\<close>. The test
  \<open>if reply_id and rating\<close> is Python truthiness: the id is neither absent nor empty, the
  rating neither absent nor 0.\<close>

definition rating_step ::
  "review \<Rightarrow> (string \<times> rating_entry list) list \<Rightarrow> (string \<times> rating_entry list) list" where
  "rating_step reply rating_history =
     (case r_content reply of
        None \<Rightarrow> rating_history
      | Some c \<Rightarrow>
          (case c_rating c of
             None \<Rightarrow> rating_history
           | Some rating_value \<Rightarrow>
               (case (r_id reply, rating_value) of
                  (Some reply_id, Some rating) \<Rightarrow>
                    if reply_id \<noteq> [] \<and> rating \<noteq> 0 then
                      dict_append reply_id
                        \<lparr>e_version = (case r_version reply of None \<Rightarrow> 1 | Some v \<Rightarrow> v),
                         e_rating = rating,
                         e_date = get0 (r_mdate reply)\<rparr> rating_history
                    else rating_history
                | _ \<Rightarrow> rating_history)))"

text \<open>Lines 72-77 for one item of \<open>rating_history\<close>: an entry of \<open>changes\<close> exists only for
  a history of more than one element.\<close>

definition history_change :: "rating_entry list \<Rightarrow> int option" where
  "history_change history =
     (let sorted_history = sort_key e_date history in
      if length sorted_history > 1
      then Some (e_rating (last sorted_history) - e_rating (hd sorted_history))
      else None)"

definition get_rating_changes :: "review list \<Rightarrow> (string \<times> int) list" where
  "get_rating_changes replies =
     List.map_filter (\<lambda>item. map_option (Pair (fst item)) (history_change (snd item)))
       (fold rating_step replies [])"

text \<open>\<open>reply.get('id', '')\<close>\<close>

fun get_str :: "string option \<Rightarrow> string" where
  "get_str None = []"
| "get_str (Some s) = s"

text \<open>\<open>has_any_changes\<close>: the mdates of each official review, then whether some review has
  two different ones.\<close>

definition version_step :: "review \<Rightarrow> (string \<times> int list) list \<Rightarrow> (string \<times> int list) list" where
  "version_step reply reply_versions =
     (if is_official reply then
        let reply_id = get_str (r_id reply); mdate = get0 (r_mdate reply)
        in if reply_id \<noteq> [] \<and> mdate \<noteq> 0 then dict_append reply_id mdate reply_versions
           else reply_versions
      else reply_versions)"

definition has_any_changes :: "review list \<Rightarrow> bool" where
  "has_any_changes replies =
     list_ex (\<lambda>item. card (set (snd item)) > 1) (fold version_step replies [])"

text \<open>\<open>count_reviews\<close>: the number of distinct truthy ids among the official reviews.\<close>

definition count_reviews_step :: "review \<Rightarrow> string set \<Rightarrow> string set" where
  "count_reviews_step reply review_ids =
     (if is_official reply then
        let reply_id = get_str (r_id reply)
        in if reply_id \<noteq> [] then insert reply_id review_ids else review_ids
      else review_ids)"

definition count_reviews :: "review list \<Rightarrow> nat" where
  "count_reviews replies = card (fold count_reviews_step replies {})"

text \<open>\<open>count_review_changes_by_type\<close>. The set \<open>all_review_ids\<close> is iterated by the second
  loop, so it is kept as a duplicate-free list in insertion order (the counts do not
  depend on the order, see \<open>count_changes_perm\<close>).\<close>

definition set_add :: "'a \<Rightarrow> 'a list \<Rightarrow> 'a list" where
  "set_add x xs = (if x \<in> set xs then xs else xs @ [x])"

text \<open>Lines 130-138, the body of the first loop.\<close>

definition official_step ::
  "review \<Rightarrow> string list \<times> (string \<times> int list) list \<Rightarrow> string list \<times> (string \<times> int list) list" where
  "official_step reply acc =
     (if is_official reply then
        let reply_id = get_str (r_id reply)
        in if reply_id \<noteq> [] then
             (set_add reply_id (fst acc),
              let mdate = get0 (r_mdate reply)
              in if mdate \<noteq> 0 then dict_append reply_id mdate (snd acc) else snd acc)
           else acc
      else acc)"

text \<open>Lines 146-157, the body of the second loop; the four counters are
  \<open>(increase_count, decrease_count, nochange_count, nochanges_count)\<close>.\<close>

definition count_step ::
  "(string \<times> int) list \<Rightarrow> (string \<times> int list) list \<Rightarrow> string
     \<Rightarrow> nat \<times> nat \<times> nat \<times> nat \<Rightarrow> nat \<times> nat \<times> nat \<times> nat" where
  "count_step rating_changes reply_versions reply_id counts =
     (case counts of (increase_count, decrease_count, nochange_count, nochanges_count) \<Rightarrow>
        let mdates = (case dict_get reply_versions reply_id of None \<Rightarrow> [] | Some ms \<Rightarrow> ms)
        in if card (set mdates) > 1 then
             let rating_change = (case dict_get rating_changes reply_id of None \<Rightarrow> 0 | Some c \<Rightarrow> c)
             in if rating_change > 0 then
                  (increase_count + 1, decrease_count, nochange_count, nochanges_count)
                else if rating_change < 0 then
                  (increase_count, decrease_count + 1, nochange_count, nochanges_count)
                else (increase_count, decrease_count, nochange_count + 1, nochanges_count)
           else (increase_count, decrease_count, nochange_count, nochanges_count + 1))"

definition count_review_changes_by_type :: "review list \<Rightarrow> nat \<times> nat \<times> nat \<times> nat" where
  "count_review_changes_by_type replies =
     (let rating_changes = get_rating_changes replies;
          collected = fold official_step replies ([], [])
      in fold (count_step rating_changes (snd collected)) (fst collected) (0, 0, 0, 0))"

section \<open>merge.py: \<open>merge_reviews\<close> on the caller's objects\<close>

text \<open>What the call does to the objects it is handed. Two kinds of objects are written
  through a reference the caller also holds: the list \<open>all_files_data\<close> (sorted in place,
  line 104) and the \<open>details\<close> dicts (line 200, reached through the shallow copies of line
  126). They live in a store; a submission dict holds the address of its \<open>details\<close> dict.
  Submission dicts, reply lists and reply dicts of the input are never written (only the
  copies and fresh lists are), so they stay values.\<close>

type_synonym addr = nat

record store =
  st_files :: "(string \<times> addr submission list) list"
  st_details :: "addr \<Rightarrow> details"
  st_next :: addr

text \<open>\<open>submission.get('details', {}).get('directReplies', [])\<close> through the store.\<close>

definition replies_at :: "(addr \<Rightarrow> details) \<Rightarrow> addr submission \<Rightarrow> review list" where
  "replies_at h submission =
     (case s_details submission of
        None \<Rightarrow> []
      | Some a \<Rightarrow> (case directReplies (h a) of None \<Rightarrow> [] | Some rs \<Rightarrow> rs))"

definition collect_file_store ::
  "(addr \<Rightarrow> details) \<Rightarrow> string \<times> addr submission list \<Rightarrow> review_collections \<Rightarrow> review_collections" where
  "collect_file_store h file rc =
     fold (\<lambda>submission. collect_submission (s_id submission) (replies_at h submission))
          (snd file) rc"

definition collect_reviews_store ::
  "(addr \<Rightarrow> details) \<Rightarrow> (string \<times> addr submission list) list \<Rightarrow> review_collections" where
  "collect_reviews_store h all_files_data = fold (collect_file_store h) all_files_data []"

text \<open>Lines 182-200 for one entry of \<open>merged_submissions\<close>, the state being the entries done
  so far, the \<open>details\<close> dicts and the next free address. A copy without \<open>details\<close> gets a new
  dict; otherwise the write goes to the dict the copy shares with the input submission.\<close>

definition attach_store ::
  "review_collections \<Rightarrow> string \<times> addr submission
     \<Rightarrow> (string \<times> addr submission) list \<times> (addr \<Rightarrow> details) \<times> addr
     \<Rightarrow> (string \<times> addr submission) list \<times> (addr \<Rightarrow> details) \<times> addr" where
  "attach_store rc entry acc =
     (case acc of (done, h, next) \<Rightarrow>
        (case dict_get rc (fst entry) of
           None \<Rightarrow> (done @ [entry], h, next)
         | Some coll \<Rightarrow>
             (case s_details (snd entry) of
                None \<Rightarrow>
                  (done @ [(fst entry, (snd entry)\<lparr>s_details := Some next\<rparr>)],
                   h(next := \<lparr>directReplies = Some (all_review_versions coll)\<rparr>),
                   Suc next)
              | Some a \<Rightarrow>
                  (done @ [entry],
                   h(a := (h a)\<lparr>directReplies := Some (all_review_versions coll)\<rparr>),
                   next))))"

text \<open>The whole call: the result list and the store after the call. The collection loop
  (lines 133-173) ends before the first write of line 200, so it reads the \<open>details\<close> dicts
  as they were at the call. The only failure is that of line 117 on an empty list, which
  the sort has left empty.\<close>

definition merge_reviews_store :: "store \<Rightarrow> error + (addr submission list \<times> store)" where
  "merge_reviews_store st =
     (let all_files_data = sort_snapshots (st_files st) in
      case latest_submissions all_files_data of
        Inl e \<Rightarrow> Inl e
      | Inr latest \<Rightarrow>
          let merged_submissions = index_submissions latest;
              rc = collect_reviews_store (st_details st) all_files_data;
              final = fold (attach_store rc) merged_submissions ([], st_details st, st_next st);
              result = map snd (fst final)
          in Inr (sort_key (\<lambda>s. get0 (s_number s)) result,
                  \<lparr>st_files = all_files_data,
                   st_details = fst (snd final),
                   st_next = snd (snd final)\<rparr>))"

section \<open>Example records\<close>

text \<open>Small records for the concrete instances below: a reply with the given id, version,
  mdate and rating that carries an Official\_Review invitation, and a submission with the
  given id, title and replies.\<close>

definition mk_review :: "string \<Rightarrow> int \<Rightarrow> int \<Rightarrow> int \<Rightarrow> review" where
  "mk_review rid v m rating =
     \<lparr>r_id = Some rid, r_version = Some v, r_mdate = Some m, r_number = Some 1,
      r_invitations = [''ICLR/-/Official_Review''],
      r_content = Some \<lparr>c_rating = Some (Some rating), c_text = ''text''\<rparr>\<rparr>"

definition mk_submission :: "string \<Rightarrow> string \<Rightarrow> review list \<Rightarrow> details submission" where
  "mk_submission sid title replies =
     \<lparr>s_id = Some sid, s_number = Some 1, s_title = title, s_mdate = 0,
      s_details = Some \<lparr>directReplies = Some replies\<rparr>\<rparr>"

text \<open>A store for the examples: submission X listed by a dated file (its \<open>details\<close> at address 0,
  holding version 2 of review r1) and by the previous merge (at address 1, holding version 1),
  the dated file first in the caller's list.\<close>

definition mk_ref_submission :: "string \<Rightarrow> string \<Rightarrow> addr \<Rightarrow> addr submission" where
  "mk_ref_submission sid title a =
     \<lparr>s_id = Some sid, s_number = Some 1, s_title = title, s_mdate = 0, s_details = Some a\<rparr>"

definition example_store :: store where
  "example_store =
     \<lparr>st_files = [(''20250201'', [mk_ref_submission ''X'' ''Final'' 0]),
                  (''merged'', [mk_ref_submission ''X'' ''Old'' 1])],
      st_details = (\<lambda>_. \<lparr>directReplies = None\<rparr>)
         (0 := \<lparr>directReplies = Some [mk_review ''r1'' 2 200 8]\<rparr>,
          1 := \<lparr>directReplies = Some [mk_review ''r1'' 1 100 6]\<rparr>),
      st_next = 2\<rparr>"

definition example_store_after :: store where
  "example_store_after =
     \<lparr>st_files = [(''merged'', [mk_ref_submission ''X'' ''Old'' 1]),
                  (''20250201'', [mk_ref_submission ''X'' ''Final'' 0])],
      st_details = (\<lambda>_. \<lparr>directReplies = None\<rparr>)
         (0 := \<lparr>directReplies = Some [mk_review ''r1'' 1 100 6, mk_review ''r1'' 2 200 8]\<rparr>,
          1 := \<lparr>directReplies = Some [mk_review ''r1'' 1 100 6]\<rparr>),
      st_next = 2\<rparr>"

section \<open>Notions used in the statements\<close>

text \<open>The truthy review ids of a reply list.\<close>

definition review_ids :: "review list \<Rightarrow> string set" where
  "review_ids rs = {rid. rid \<noteq> [] \<and> Some rid \<in> r_id ` set rs}"

text \<open>The test of line 63 of merge.py, \<open>total_versions > unique_reviews\<close>, on one
  submission.\<close>

definition has_extra_versions :: "details submission \<Rightarrow> bool" where
  "has_extra_versions s \<longleftrightarrow>
     card (review_ids (direct_replies s)) < length (direct_replies s)"

text \<open>No reply without the Official\_Review invitation shares its id with a reply that
  has it.\<close>

definition unofficial_ids_apart :: "review list \<Rightarrow> bool" where
  "unofficial_ids_apart replies \<longleftrightarrow>
     (\<forall>r \<in> set replies. \<forall>r' \<in> set replies.
        \<not> is_official r \<longrightarrow> is_official r' \<longrightarrow> r_id r \<noteq> r_id r')"

text \<open>The pair \<open>(version, mdate)\<close> the duplicate test of lines 160-169 compares, and the same
  with the review id in front.\<close>

definition version_key :: "review \<Rightarrow> int \<times> int" where
  "version_key r = (get0 (r_version r), get0 (r_mdate r))"

definition entry_key :: "review \<Rightarrow> string option \<times> int \<times> int" where
  "entry_key r = (r_id r, get0 (r_version r), get0 (r_mdate r))"

text \<open>The version sets of one submission are well formed: one non-empty list per (truthy)
  review id, holding entries of that id only, no two of them with the same
  \<open>(version, mdate)\<close>. \<open>coll_entries\<close> are all entries of the version sets.\<close>

definition coll_ok :: "(string \<times> review list) list \<Rightarrow> bool" where
  "coll_ok coll \<longleftrightarrow>
     distinct (map fst coll) \<and>
     (\<forall>rid vs. dict_get coll rid = Some vs \<longrightarrow>
        vs \<noteq> [] \<and> rid \<noteq> [] \<and> (\<forall>r \<in> set vs. r_id r = Some rid) \<and> distinct (map version_key vs))"

definition coll_entries :: "(string \<times> review list) list \<Rightarrow> review set" where
  "coll_entries coll = set (concat (map snd coll))"

text \<open>The same for \<open>review_collections\<close>, the version sets of all submissions.\<close>

definition rc_ok :: "review_collections \<Rightarrow> bool" where
  "rc_ok rc \<longleftrightarrow> distinct (map fst rc) \<and> (\<forall>k coll. dict_get rc k = Some coll \<longrightarrow> coll_ok coll)"

definition rc_entries :: "review_collections \<Rightarrow> string \<Rightarrow> review set" where
  "rc_entries rc k = (case dict_get rc k of None \<Rightarrow> {} | Some coll \<Rightarrow> coll_entries coll)"

text \<open>The replies with a truthy id that the snapshots list under the submission id \<open>k\<close>.\<close>

definition fed :: "snapshot list \<Rightarrow> string \<Rightarrow> review set" where
  "fed snaps k =
     {r. truthy_id (r_id r) \<and>
         (\<exists>snap \<in> set snaps. \<exists>s \<in> set (snd snap). s_id s = Some k \<and> r \<in> set (direct_replies s))}"

text \<open>The loop over files and submissions is one loop over all submissions in order.\<close>

definition collect_step :: "details submission \<Rightarrow> review_collections \<Rightarrow> review_collections" where
  "collect_step s = collect_submission (s_id s) (direct_replies s)"

text \<open>The keys of \<open>merged_submissions\<close>: the truthy submission ids of the metadata source.\<close>

definition source_ids :: "snapshot list \<Rightarrow> string set" where
  "source_ids snaps = fst ` set (index_submissions (snd (last (sort_snapshots snaps))))"

text \<open>The deserialized tree a stored submission stands for: its \<open>details\<close> reference replaced
  by the dict found there.\<close>

definition deref :: "(addr \<Rightarrow> details) \<Rightarrow> addr submission \<Rightarrow> details submission" where
  "deref h s =
     \<lparr>s_id = s_id s, s_number = s_number s, s_title = s_title s, s_mdate = s_mdate s,
      s_details = map_option h (s_details s)\<rparr>"

definition deref_entry ::
  "(addr \<Rightarrow> details) \<Rightarrow> string \<times> addr submission \<Rightarrow> string \<times> details submission" where
  "deref_entry h e = (fst e, deref h (snd e))"

definition view_files ::
  "(addr \<Rightarrow> details) \<Rightarrow> (string \<times> addr submission list) list \<Rightarrow> snapshot list" where
  "view_files h files = map (\<lambda>file. (fst file, map (deref h) (snd file))) files"

text \<open>The \<open>details\<close> addresses held by the entries of \<open>merged_submissions\<close>.\<close>

definition source_refs :: "store \<Rightarrow> addr list" where
  "source_refs st =
     List.map_filter s_details
       (map snd (index_submissions (snd (last (sort_snapshots (st_files st))))))"

text \<open>One step of \<open>attach_store\<close> without the list of entries done so far.\<close>

definition attach_one ::
  "review_collections \<Rightarrow> string \<times> addr submission \<Rightarrow> (addr \<Rightarrow> details) \<Rightarrow> addr
     \<Rightarrow> (string \<times> addr submission) \<times> (addr \<Rightarrow> details) \<times> addr" where
  "attach_one rc entry h next =
     (case dict_get rc (fst entry) of
        None \<Rightarrow> (entry, h, next)
      | Some coll \<Rightarrow>
          (case s_details (snd entry) of
             None \<Rightarrow>
               ((fst entry, (snd entry)\<lparr>s_details := Some next\<rparr>),
                h(next := \<lparr>directReplies = Some (all_review_versions coll)\<rparr>),
                Suc next)
           | Some a \<Rightarrow>
               (entry, h(a := (h a)\<lparr>directReplies := Some (all_review_versions coll)\<rparr>), next)))"

text \<open>\<open>reply['content']['rating']['value']\<close> where present (0 otherwise), and the entry a
  rated reply adds to \<open>rating_history\<close>.\<close>

definition rating_of :: "review \<Rightarrow> int" where
  "rating_of r =
     (case r_content r of
        None \<Rightarrow> 0
      | Some c \<Rightarrow> (case c_rating c of Some (Some v) \<Rightarrow> v | _ \<Rightarrow> 0))"

definition history_entry :: "review \<Rightarrow> rating_entry" where
  "history_entry r =
     \<lparr>e_version = (case r_version r of None \<Rightarrow> 1 | Some v \<Rightarrow> v),
      e_rating = rating_of r,
      e_date = get0 (r_mdate r)\<rparr>"

text \<open>The versions of one official review, each with a non-zero rating and a non-zero
  mdate.\<close>

definition rated_versions_of :: "string \<Rightarrow> review list \<Rightarrow> bool" where
  "rated_versions_of rid rs \<longleftrightarrow>
     rid \<noteq> [] \<and>
     list_all (\<lambda>r. r_id r = Some rid \<and> is_official r \<and> rating_of r \<noteq> 0 \<and>
                   get0 (r_mdate r) \<noteq> 0) rs"

chapter \<open>Properties\<close>

lemmas merge_eval =
  merge_reviews_def sort_snapshots_def snapshot_key_def latest_submissions_def find_latest_def
  index_submissions_def index_submission_def collect_reviews_def collect_file_def
  collect_submission_def add_review_def dict_init_def dict_get_def same_version_def
  direct_replies_def attach_reviews_def all_review_versions_def review_key_def
  mk_submission_def mk_review_def Let_def

section \<open>Dictionaries\<close>

lemma dict_get_set: "dict_get (dict_set k v d) k' = (if k' = k then Some v else dict_get d k')"
  by (induction d) (auto simp: dict_get_def)

lemma keys_dict_set:
  "fst ` set (dict_set k v d) = insert k (fst ` set d)"
  by (induction d) auto

lemma distinct_dict_set:
  "distinct (map fst d) \<Longrightarrow> distinct (map fst (dict_set k v d))"
  by (induction d) (auto simp: keys_dict_set)

lemma set_dict_set: "set (dict_set k v d) \<subseteq> insert (k, v) (set d)"
  by (induction d) auto

lemma dict_get_Some_iff:
  "distinct (map fst d) \<Longrightarrow> dict_get d k = Some v \<longleftrightarrow> (k, v) \<in> set d"
  by (simp add: dict_get_def)

lemma dict_get_None_iff: "dict_get d k = None \<longleftrightarrow> k \<notin> fst ` set d"
  by (simp add: dict_get_def map_of_eq_None_iff)

lemma dict_get_init: "dict_get (dict_init k v d) k' =
   (if k' = k then (case dict_get d k of None \<Rightarrow> Some v | Some w \<Rightarrow> Some w) else dict_get d k')"
  by (auto simp: dict_init_def dict_get_set split: option.splits)

lemma keys_dict_init: "fst ` set (dict_init k v d) = insert k (fst ` set d)"
  by (auto simp: dict_init_def keys_dict_set dict_get_None_iff split: option.splits
      dest!: map_of_SomeD simp: dict_get_def rev_image_eqI)

lemma distinct_dict_init:
  "distinct (map fst d) \<Longrightarrow> distinct (map fst (dict_init k v d))"
  by (auto simp: dict_init_def distinct_dict_set split: option.splits)

section \<open>The metadata source\<close>

lemma snapshot_key_le_dated:
  "snapshot_key x \<le> snapshot_key y \<Longrightarrow> fst x \<noteq> ''merged'' \<Longrightarrow> fst y \<noteq> ''merged''"
  by (auto simp: snapshot_key_def less_eq_prod_def)

lemma sorted_last_max:
  "sorted (map f xs) \<Longrightarrow> x \<in> set xs \<Longrightarrow> f x \<le> f (last xs)"
  by (induction xs) (auto split: if_splits)

lemma find_latest_sorted:
  assumes "sorted (map snapshot_key xs)" "x \<in> set xs" "fst x \<noteq> ''merged''"
  shows "find_latest xs = Some (last xs)"
proof -
  have "snapshot_key x \<le> snapshot_key (last xs)"
    using assms(1,2) by (rule sorted_last_max)
  then have dated: "fst (last xs) \<noteq> ''merged''" using assms(3) by (rule snapshot_key_le_dated)
  obtain ys y where xs: "xs = ys @ [y]"
    using assms(2) by (cases xs rule: rev_exhaust) auto
  show ?thesis using dated unfolding xs by (simp add: find_latest_def)
qed

lemma find_latest_None: "find_latest xs = None \<longleftrightarrow> (\<forall>x \<in> set xs. fst x = ''merged'')"
  by (auto simp: find_latest_def find_None_iff)

lemma latest_submissions_sorted:
  assumes "sorted (map snapshot_key xs)" "xs \<noteq> []"
  shows "latest_submissions xs = Inr (snd (last xs))"
proof (cases "find_latest xs")
  case None
  then show ?thesis using assms(2) by (simp add: latest_submissions_def)
next
  case (Some y)
  then have "\<exists>x \<in> set xs. fst x \<noteq> ''merged''"
    using find_latest_None[of xs] by auto
  then have "find_latest xs = Some (last xs)"
    using find_latest_sorted[OF assms(1)] by blast
  then show ?thesis using assms(2)
    by (auto simp: latest_submissions_def split: prod.splits)
qed

lemma sorted_sort_snapshots: "sorted (map snapshot_key (sort_snapshots xs))"
  by (simp add: sort_snapshots_def)

lemma sort_snapshots_Nil_iff: "sort_snapshots xs = [] \<longleftrightarrow> xs = []"
  by (metis length_0_conv length_sort sort_snapshots_def)

lemma latest_submissions_sort:
  "xs \<noteq> [] \<Longrightarrow> latest_submissions (sort_snapshots xs) = Inr (snd (last (sort_snapshots xs)))"
  by (simp add: latest_submissions_sorted sorted_sort_snapshots sort_snapshots_Nil_iff)

lemma merge_reviews_eq:
  "xs \<noteq> [] \<Longrightarrow> merge_reviews xs =
     Inr (sort_key (\<lambda>s. get0 (s_number s))
       (map snd (map (attach_reviews (collect_reviews (sort_snapshots xs)))
          (index_submissions (snd (last (sort_snapshots xs)))))))"
  by (simp add: merge_reviews_def latest_submissions_sort Let_def)

lemma last_sort_snapshots_in: "xs \<noteq> [] \<Longrightarrow> last (sort_snapshots xs) \<in> set xs"
  by (metis last_in_set set_sort sort_snapshots_Nil_iff sort_snapshots_def)

lemma last_sort_snapshots_max:
  "x \<in> set xs \<Longrightarrow> snapshot_key x \<le> snapshot_key (last (sort_snapshots xs))"
  using sorted_last_max[OF sorted_sort_snapshots, of x xs] by (simp add: sort_snapshots_def)

lemma set_index_submission:
  "set (index_submission s m) \<subseteq> set m \<union> {(k, s) |k. s_id s = Some k \<and> k \<noteq> []}"
  using set_dict_set[of _ s m] by (auto simp: index_submission_def split: option.splits)

lemma set_fold_index:
  "(k, s) \<in> set (fold index_submission subs m) \<Longrightarrow>
     (k, s) \<in> set m \<or> (s \<in> set subs \<and> s_id s = Some k \<and> k \<noteq> [])"
proof (induction subs arbitrary: m)
  case Nil then show ?case by simp
next
  case (Cons a subs)
  from Cons.IH[OF Cons.prems[simplified]] show ?case
    using set_index_submission[of a m] by auto
qed

lemma index_submissions_sound:
  "(k, s) \<in> set (index_submissions subs) \<Longrightarrow> s \<in> set subs \<and> s_id s = Some k \<and> k \<noteq> []"
  using set_fold_index[of k s subs "[]"] by (simp add: index_submissions_def)

lemma attach_reviews_meta:
  "snd (attach_reviews rc e) = (snd e)\<lparr>s_details := s_details (snd (attach_reviews rc e))\<rparr>"
  by (simp add: attach_reviews_def Let_def split: option.splits)

section \<open>Empty input\<close>

lemma latest_submissions_Nil: "latest_submissions [] = Inl IndexError"
  by (simp add: latest_submissions_def find_latest_def)

text \<open>C6: called on an empty snapshot list, \<open>merge_reviews\<close> fails and returns no merged
  list: the fallback \<open>all_files_data[-1]\<close> raises (the failure the specification calls
  EmptyInputError).\<close>

theorem C6_empty_input_fails: "merge_reviews [] = Inl IndexError"
  by (simp add: merge_reviews_def sort_snapshots_def latest_submissions_Nil)

section \<open>Metadata precedence\<close>

lemma result_metadata:
  assumes "snaps \<noteq> []" "merge_reviews snaps = Inr result" "s' \<in> set result"
  shows "\<exists>s \<in> set (snd (last (sort_snapshots snaps))). s' = s\<lparr>s_details := s_details s'\<rparr>"
proof -
  let ?rc = "collect_reviews (sort_snapshots snaps)"
  let ?idx = "index_submissions (snd (last (sort_snapshots snaps)))"
  from assms have "s' \<in> set (map snd (map (attach_reviews ?rc) ?idx))"
    by (auto simp: merge_reviews_eq)
  then obtain e where e: "e \<in> set ?idx" and s': "s' = snd (attach_reviews ?rc e)"
    by auto
  have "snd e \<in> set (snd (last (sort_snapshots snaps)))"
    using index_submissions_sound[of "fst e" "snd e"] e by simp
  moreover have "s' = (snd e)\<lparr>s_details := s_details s'\<rparr>"
    unfolding s' by (rule attach_reviews_meta)
  ultimately show ?thesis by blast
qed

lemma merge_reviews_returns: "snaps \<noteq> [] \<Longrightarrow> \<exists>result. merge_reviews snaps = Inr result"
  by (simp add: merge_reviews_eq)

lemma dated_source:
  assumes "x \<in> set snaps" "fst x \<noteq> ''merged''"
  shows "fst (last (sort_snapshots snaps)) \<noteq> ''merged''"
  using last_sort_snapshots_max[OF assms(1)] assms(2) by (rule snapshot_key_le_dated)

lemma dated_source_greatest:
  assumes "x \<in> set snaps" "fst x \<noteq> ''merged''"
  shows "fst x \<le> fst (last (sort_snapshots snaps))"
  using last_sort_snapshots_max[OF assms(1)] assms(2) dated_source[OF assms]
  by (auto simp: snapshot_key_def less_eq_prod_def)

text \<open>C1: when the input holds at least one dated snapshot, every submission of the merged
  output is a submission record of one and the same input snapshot, a dated one whose
  chronokey is the greatest among the dated snapshots (never the sentinel), with only its
  \<open>details\<close> replaced. Concretely, merging S1 (dated 20250101, X titled Draft) and S2
  (dated 20250201, X titled Final) yields X titled Final, carrying the reviews of both.\<close>

theorem C1_metadata_from_latest_dated:
  assumes "\<exists>x \<in> set snaps. fst x \<noteq> ''merged''"
  shows "(\<exists>src \<in> set snaps. fst src \<noteq> ''merged'' \<and>
            (\<forall>x \<in> set snaps. fst x \<noteq> ''merged'' \<longrightarrow> fst x \<le> fst src) \<and>
            (\<exists>result. merge_reviews snaps = Inr result \<and>
               (\<forall>s' \<in> set result. \<exists>s \<in> set (snd src). s' = s\<lparr>s_details := s_details s'\<rparr>)))
         \<and> merge_reviews
              [(''20250101'', [mk_submission ''X'' ''Draft'' [mk_review ''r1'' 1 100 6]]),
               (''20250201'', [mk_submission ''X'' ''Final'' [mk_review ''r2'' 1 200 8]])]
            = Inr [mk_submission ''X'' ''Final'' [mk_review ''r1'' 1 100 6, mk_review ''r2'' 1 200 8]]"
proof
  from assms obtain x where x: "x \<in> set snaps" "fst x \<noteq> ''merged''" by blast
  then have ne: "snaps \<noteq> []" by auto
  let ?src = "last (sort_snapshots snaps)"
  obtain result where r: "merge_reviews snaps = Inr result"
    using merge_reviews_returns[OF ne] by blast
  have "?src \<in> set snaps" using ne by (rule last_sort_snapshots_in)
  moreover have "fst ?src \<noteq> ''merged''" using x by (rule dated_source)
  moreover have "\<forall>x \<in> set snaps. fst x \<noteq> ''merged'' \<longrightarrow> fst x \<le> fst ?src"
    using dated_source_greatest by blast
  moreover have "\<forall>s' \<in> set result. \<exists>s \<in> set (snd ?src). s' = s\<lparr>s_details := s_details s'\<rparr>"
    using result_metadata[OF ne r] by blast
  ultimately show "\<exists>src \<in> set snaps. fst src \<noteq> ''merged'' \<and>
            (\<forall>x \<in> set snaps. fst x \<noteq> ''merged'' \<longrightarrow> fst x \<le> fst src) \<and>
            (\<exists>result. merge_reviews snaps = Inr result \<and>
               (\<forall>s' \<in> set result. \<exists>s \<in> set (snd src). s' = s\<lparr>s_details := s_details s'\<rparr>))"
    using r by blast
next
  show "merge_reviews
              [(''20250101'', [mk_submission ''X'' ''Draft'' [mk_review ''r1'' 1 100 6]]),
               (''20250201'', [mk_submission ''X'' ''Final'' [mk_review ''r2'' 1 200 8]])]
            = Inr [mk_submission ''X'' ''Final'' [mk_review ''r1'' 1 100 6, mk_review ''r2'' 1 200 8]]"
    by (simp add: merge_eval)
qed

theorem C1_witness:
  "(\<exists>x \<in> set [(''merged'', [mk_submission ''X'' ''Old'' []]),
               (''20250201'', [mk_submission ''X'' ''Final'' []]),
               (''20250101'', [mk_submission ''X'' ''Draft'' []])]. fst x \<noteq> ''merged'')
   \<and> (\<exists>src \<in> set [(''merged'', [mk_submission ''X'' ''Old'' []]),
               (''20250201'', [mk_submission ''X'' ''Final'' []]),
               (''20250101'', [mk_submission ''X'' ''Draft'' []])].
        fst src \<noteq> ''merged'' \<and>
        (\<exists>result. merge_reviews [(''merged'', [mk_submission ''X'' ''Old'' []]),
               (''20250201'', [mk_submission ''X'' ''Final'' []]),
               (''20250101'', [mk_submission ''X'' ''Draft'' []])] = Inr result \<and>
           (\<forall>s' \<in> set result. \<exists>s \<in> set (snd src). s' = s\<lparr>s_details := s_details s'\<rparr>)))"
proof -
  have h: "\<exists>x \<in> set [(''merged'', [mk_submission ''X'' ''Old'' []]),
               (''20250201'', [mk_submission ''X'' ''Final'' []]),
               (''20250101'', [mk_submission ''X'' ''Draft'' []])]. fst x \<noteq> ''merged''"
    by simp
  from C1_metadata_from_latest_dated[OF h] h show ?thesis by blast
qed

section \<open>Only sentinel snapshots\<close>





section \<open>The reconciliation report\<close>

lemma review_ids_Nil [simp]: "review_ids [] = {}"
  by (simp add: review_ids_def)

lemma review_ids_Cons:
  "review_ids (r # rs) =
     (case r_id r of None \<Rightarrow> review_ids rs
      | Some rid \<Rightarrow> if rid = [] then review_ids rs else insert rid (review_ids rs))"
  by (auto simp: review_ids_def split: option.splits)

lemma finite_review_ids [simp]: "finite (review_ids rs)"
  by (induction rs) (auto simp: review_ids_Cons split: option.splits)

lemma keys_dict_append: "fst ` set (dict_append k x d) = insert k (fst ` set d)"
  by (simp add: dict_append_def keys_dict_set)

lemma distinct_dict_append: "distinct (map fst d) \<Longrightarrow> distinct (map fst (dict_append k x d))"
  by (simp add: dict_append_def distinct_dict_set)

lemma group_review_keys:
  "fst ` set (fst (group_review r acc)) = fst ` set (fst acc) \<union> review_ids [r]"
  by (auto simp: group_review_def review_ids_Cons keys_dict_append split: option.splits)

lemma group_review_distinct:
  "distinct (map fst (fst acc)) \<Longrightarrow> distinct (map fst (fst (group_review r acc)))"
  by (auto simp: group_review_def distinct_dict_append split: option.splits)

lemma group_review_ids: "snd (group_review r acc) = snd acc \<union> review_ids [r]"
  by (auto simp: group_review_def review_ids_Cons split: option.splits)

lemma review_ids_Cons_Un: "review_ids (r # rs) = review_ids [r] \<union> review_ids rs"
  by (auto simp: review_ids_def)

lemma fold_group_review:
  "distinct (map fst (fst acc)) \<Longrightarrow>
     distinct (map fst (fst (fold group_review rs acc))) \<and>
     fst ` set (fst (fold group_review rs acc)) = fst ` set (fst acc) \<union> review_ids rs \<and>
     snd (fold group_review rs acc) = snd acc \<union> review_ids rs"
proof (induction rs arbitrary: acc)
  case Nil
  then show ?case by simp
next
  case (Cons r rs)
  have d: "distinct (map fst (fst (group_review r acc)))"
    using Cons.prems by (rule group_review_distinct)
  show ?case
    using Cons.IH[OF d] group_review_keys[of r acc] group_review_ids[of r acc]
      review_ids_Cons_Un[of r rs]
    by auto
qed

lemma length_groups:
  "length (fst (fold group_review rs ([], ids))) = card (review_ids rs)"
proof -
  have "distinct (map fst (fst (fold group_review rs ([], ids))))"
    and k: "fst ` set (fst (fold group_review rs ([], ids))) = review_ids rs"
    using fold_group_review[of "([], ids)" rs] by auto
  then have "card (fst ` set (fst (fold group_review rs ([], ids))))
      = length (fst (fold group_review rs ([], ids)))"
    by (metis distinct_card length_map set_map)
  with k show ?thesis by simp
qed

lemma ids_groups: "snd (fold group_review rs ([], ids)) = ids \<union> review_ids rs"
  using fold_group_review[of "([], ids)" rs] by auto

text \<open>What one pass of the loop body does to each statistic.\<close>

lemma analyze_submission_multi:
  "multi_version_count (fst (analyze_submission s acc)) =
     multi_version_count (fst acc) + (if has_extra_versions s then 1 else 0)"
  by (auto simp: analyze_submission_def Let_def length_groups has_extra_versions_def)

lemma analyze_submission_total:
  "total_review_entries (fst (analyze_submission s acc)) =
     total_review_entries (fst acc) + length (direct_replies s)"
  by (auto simp: analyze_submission_def Let_def)

lemma analyze_submission_ids:
  "snd (analyze_submission s acc) = snd acc \<union> review_ids (direct_replies s)"
  by (auto simp: analyze_submission_def Let_def ids_groups)

lemma fold_analyze_multi:
  "multi_version_count (fst (fold analyze_submission data acc)) =
     multi_version_count (fst acc) + length (filter has_extra_versions data)"
  by (induction data arbitrary: acc) (auto simp: analyze_submission_multi)

lemma fold_analyze_total:
  "total_review_entries (fst (fold analyze_submission data acc)) =
     total_review_entries (fst acc) + sum_list (map (\<lambda>s. length (direct_replies s)) data)"
  by (induction data arbitrary: acc) (auto simp: analyze_submission_total)

lemma fold_analyze_ids:
  "snd (fold analyze_submission data acc) =
     snd acc \<union> (\<Union>s \<in> set data. review_ids (direct_replies s))"
  by (induction data arbitrary: acc) (auto simp: analyze_submission_ids)

lemma multi_version_count_eq:
  "multi_version_count (analyze_data data) = length (filter has_extra_versions data)"
  by (simp add: analyze_data_def Let_def fold_analyze_multi)

lemma total_review_entries_eq:
  "total_review_entries (analyze_data data) =
     sum_list (map (\<lambda>s. length (direct_replies s)) data)"
  by (simp add: analyze_data_def Let_def fold_analyze_total)

lemma unique_reviews_eq:
  "unique_reviews (analyze_data data) = card (\<Union>s \<in> set data. review_ids (direct_replies s))"
  by (simp add: analyze_data_def Let_def fold_analyze_ids)

text \<open>More entries than ids means that two entries share an id.\<close>

lemma distinct_map_filter_le1:
  "distinct (map f xs) \<longleftrightarrow> (\<forall>y. length (filter (\<lambda>x. f x = y) xs) \<le> 1)"
proof (induction xs)
  case Nil
  then show ?case by simp
next
  case (Cons a xs)
  show ?case
  proof
    assume d: "distinct (map f (a # xs))"
    then have "f a \<notin> f ` set xs" by simp
    then have "filter (\<lambda>x. f x = f a) xs = []"
      unfolding filter_empty_conv by (metis imageI)
    moreover have "\<forall>y. length (filter (\<lambda>x. f x = y) xs) \<le> 1"
      using d Cons by simp
    ultimately show "\<forall>y. length (filter (\<lambda>x. f x = y) (a # xs)) \<le> 1"
      by auto
  next
    assume h: "\<forall>y. length (filter (\<lambda>x. f x = y) (a # xs)) \<le> 1"
    then have "length (filter (\<lambda>x. f x = f a) (a # xs)) \<le> 1" by blast
    then have "filter (\<lambda>x. f x = f a) xs = []" by simp
    then have "f a \<notin> f ` set xs" by (auto simp: filter_empty_conv)
    moreover have "\<forall>y. length (filter (\<lambda>x. f x = y) xs) \<le> 1"
    proof
      fix y
      from h have "length (filter (\<lambda>x. f x = y) (a # xs)) \<le> 1" by blast
      then show "length (filter (\<lambda>x. f x = y) xs) \<le> 1" by (simp split: if_splits)
    qed
    ultimately show "distinct (map f (a # xs))" using Cons by simp
  qed
qed

lemma review_ids_all_truthy:
  assumes "\<forall>r \<in> set rs. truthy_id (r_id r)"
  shows "Some ` review_ids rs = set (map r_id rs)"
proof -
  have "\<And>r. r \<in> set rs \<Longrightarrow> \<exists>rid. r_id r = Some rid \<and> rid \<noteq> []"
    using assms by (metis truthy_id.elims(2))
  then show ?thesis
    by (auto simp: review_ids_def image_iff) force+
qed

lemma has_extra_versions_iff:
  assumes "\<forall>r \<in> set (direct_replies s). truthy_id (r_id r)"
  shows "has_extra_versions s \<longleftrightarrow>
           (\<exists>rid. 1 < length (filter (\<lambda>r. r_id r = Some rid) (direct_replies s)))"
proof -
  let ?rs = "direct_replies s"
  have "card (review_ids ?rs) = card (Some ` review_ids ?rs)"
    by (simp add: card_image)
  also have "\<dots> = card (set (map r_id ?rs))"
    using review_ids_all_truthy[OF assms] by simp
  finally have c: "card (review_ids ?rs) = card (set (map r_id ?rs))" .
  have "has_extra_versions s \<longleftrightarrow> \<not> distinct (map r_id ?rs)"
    unfolding has_extra_versions_def c
    by (metis card_distinct distinct_card length_map card_length le_neq_implies_less nat_less_le)
  also have "\<dots> \<longleftrightarrow> (\<exists>y. 1 < length (filter (\<lambda>r. r_id r = y) ?rs))"
    by (auto simp: distinct_map_filter_le1 not_le)
  also have "\<dots> \<longleftrightarrow> (\<exists>rid. 1 < length (filter (\<lambda>r. r_id r = Some rid) ?rs))"
  proof
    assume "\<exists>y. 1 < length (filter (\<lambda>r. r_id r = y) ?rs)"
    then obtain y where y: "1 < length (filter (\<lambda>r. r_id r = y) ?rs)" by blast
    then have "filter (\<lambda>r. r_id r = y) ?rs \<noteq> []" by auto
    then obtain r where "r \<in> set ?rs" "r_id r = y" by (auto simp: filter_empty_conv)
    then obtain rid where "y = Some rid" using assms by (cases y) auto
    with y show "\<exists>rid. 1 < length (filter (\<lambda>r. r_id r = Some rid) ?rs)" by blast
  qed blast
  finally show ?thesis .
qed

text \<open>C9: when every review entry carries a (truthy) review id, \<open>multi_version_count\<close> is
  the number of submissions in which some review id is shared by more than one entry.\<close>

theorem C9_multi_version_count:
  assumes "\<forall>s \<in> set data. \<forall>r \<in> set (direct_replies s). truthy_id (r_id r)"
  shows "multi_version_count (analyze_data data) =
           length (filter (\<lambda>s. \<exists>rid. 1 < length (filter (\<lambda>r. r_id r = Some rid) (direct_replies s))) data)"
proof -
  have "filter has_extra_versions data =
        filter (\<lambda>s. \<exists>rid. 1 < length (filter (\<lambda>r. r_id r = Some rid) (direct_replies s))) data"
    using assms by (intro filter_cong refl has_extra_versions_iff) blast
  then show ?thesis by (simp add: multi_version_count_eq)
qed

lemmas analyze_eval =
  analyze_data_def analyze_submission_def group_review_def dict_append_def dict_incr_def
  dict_get_def direct_replies_def mk_submission_def mk_review_def Let_def

theorem C9_witness:
  "list_all (\<lambda>s. list_all (\<lambda>r. truthy_id (r_id r)) (direct_replies s))
     [mk_submission ''X'' ''T'' [mk_review ''r1'' 1 100 6, mk_review ''r1'' 2 200 8],
      mk_submission ''Y'' ''U'' [mk_review ''r2'' 1 100 6]]
   \<and> multi_version_count (analyze_data
        [mk_submission ''X'' ''T'' [mk_review ''r1'' 1 100 6, mk_review ''r1'' 2 200 8],
         mk_submission ''Y'' ''U'' [mk_review ''r2'' 1 100 6]]) = 1"
proof -
  have h: "\<forall>s \<in> set [mk_submission ''X'' ''T'' [mk_review ''r1'' 1 100 6, mk_review ''r1'' 2 200 8],
                mk_submission ''Y'' ''U'' [mk_review ''r2'' 1 100 6]].
      \<forall>r \<in> set (direct_replies s). truthy_id (r_id r)"
    by (simp add: direct_replies_def mk_submission_def mk_review_def)
  show ?thesis
    using h C9_multi_version_count[OF h]
    by (simp add: direct_replies_def mk_submission_def mk_review_def)
qed

section \<open>Replies that are not official reviews\<close>

lemma official_step_skip: "\<not> is_official r \<Longrightarrow> official_step r acc = acc"
  by (simp add: official_step_def)

lemma fold_official_step_filter:
  "fold official_step replies acc = fold official_step (filter is_official replies) acc"
  by (induction replies arbitrary: acc) (simp_all add: official_step_skip)

lemma fold_count_reviews_step_filter:
  "fold count_reviews_step replies ids = fold count_reviews_step (filter is_official replies) ids"
  by (induction replies arbitrary: ids) (simp_all add: count_reviews_step_def)

lemma fold_version_step_filter:
  "fold version_step replies rv = fold version_step (filter is_official replies) rv"
  by (induction replies arbitrary: rv) (simp_all add: version_step_def)

lemma official_step_ids:
  "k \<in> set (fst (official_step r acc)) \<Longrightarrow>
     k \<in> set (fst acc) \<or> (is_official r \<and> r_id r = Some k)"
  by (cases "r_id r") (auto simp: official_step_def set_add_def Let_def split: if_splits)

lemma fold_official_step_ids:
  "k \<in> set (fst (fold official_step replies acc)) \<Longrightarrow>
     k \<in> set (fst acc) \<or> (\<exists>r \<in> set replies. is_official r \<and> r_id r = Some k)"
proof (induction replies arbitrary: acc)
  case Nil
  then show ?case by simp
next
  case (Cons r replies)
  from Cons.IH[OF Cons.prems[simplified]] official_step_ids[of k r acc]
  show ?case by auto
qed

text \<open>A lookup in \<open>rating_history\<close> depends only on the replies that carry the key.\<close>

lemma dict_get_dict_append:
  "dict_get (dict_append k x d) k' =
     (if k' = k then Some ((case dict_get d k of None \<Rightarrow> [] | Some xs \<Rightarrow> xs) @ [x])
      else dict_get d k')"
  by (simp add: dict_append_def dict_get_set)

lemma rating_step_other:
  "r_id r \<noteq> Some k \<Longrightarrow> dict_get (rating_step r acc) k = dict_get acc k"
  by (auto simp: rating_step_def dict_get_dict_append split: option.splits)

lemma rating_step_agree:
  "dict_get acc k = dict_get acc' k \<Longrightarrow>
     dict_get (rating_step r acc) k = dict_get (rating_step r acc') k"
  by (auto simp: rating_step_def dict_get_dict_append split: option.splits)

lemma fold_rating_step_agree:
  "dict_get acc k = dict_get acc' k \<Longrightarrow>
     dict_get (fold rating_step rs acc) k = dict_get (fold rating_step rs acc') k"
proof (induction rs arbitrary: acc acc')
  case Nil
  then show ?case by simp
next
  case (Cons r rs)
  have "dict_get (rating_step r acc) k = dict_get (rating_step r acc') k"
    using Cons.prems by (rule rating_step_agree)
  from Cons.IH[OF this] show ?case by simp
qed

lemma fold_rating_step_filter:
  "dict_get (fold rating_step rs acc) k =
     dict_get (fold rating_step (filter (\<lambda>r. r_id r = Some k) rs) acc) k"
proof (induction rs arbitrary: acc)
  case Nil
  then show ?case by simp
next
  case (Cons r rs)
  show ?case
  proof (cases "r_id r = Some k")
    case True
    then show ?thesis using Cons.IH by simp
  next
    case False
    have "dict_get (fold rating_step rs (rating_step r acc)) k
        = dict_get (fold rating_step rs acc) k"
      by (rule fold_rating_step_agree) (rule rating_step_other[OF False])
    then show ?thesis using False Cons.IH by simp
  qed
qed

lemma distinct_rating_step:
  "distinct (map fst acc) \<Longrightarrow> distinct (map fst (rating_step r acc))"
  by (auto simp: rating_step_def distinct_dict_append split: option.splits)

lemma distinct_fold_rating_step:
  "distinct (map fst acc) \<Longrightarrow> distinct (map fst (fold rating_step rs acc))"
proof (induction rs arbitrary: acc)
  case Nil
  then show ?case by simp
next
  case (Cons r rs)
  show ?case using Cons.IH[OF distinct_rating_step[OF Cons.prems]] by simp
qed

lemma dict_get_map_filter_None:
  "k \<notin> fst ` set d \<Longrightarrow>
     dict_get (List.map_filter (\<lambda>item. map_option (Pair (fst item)) (g (snd item))) d) k = None"
proof (induction d)
  case Nil
  then show ?case by (simp add: dict_get_def)
next
  case (Cons p d)
  then have "k \<noteq> fst p" and "k \<notin> fst ` set d" by auto
  with Cons.IH show ?case
    by (cases "g (snd p)") (simp_all add: dict_get_def)
qed

lemma dict_get_map_filter:
  "distinct (map fst d) \<Longrightarrow>
     dict_get (List.map_filter (\<lambda>item. map_option (Pair (fst item)) (g (snd item))) d) k =
       Option.bind (dict_get d k) g"
proof (induction d)
  case Nil
  then show ?case by (simp add: dict_get_def)
next
  case (Cons p d)
  have notin: "fst p \<notin> fst ` set d" using Cons.prems by simp
  have ih: "dict_get (List.map_filter (\<lambda>item. map_option (Pair (fst item)) (g (snd item))) d) k =
       Option.bind (dict_get d k) g"
    using Cons by simp
  show ?case
  proof (cases "k = fst p")
    case True
    then have "dict_get (List.map_filter (\<lambda>item. map_option (Pair (fst item)) (g (snd item))) d) k = None"
      using notin by (simp add: dict_get_map_filter_None)
    then show ?thesis using True
      by (cases "g (snd p)") (simp_all add: dict_get_def)
  next
    case False
    then show ?thesis using ih
      by (cases "g (snd p)") (simp_all add: dict_get_def)
  qed
qed

lemma dict_get_rating_changes:
  "dict_get (get_rating_changes rs) k =
     Option.bind (dict_get (fold rating_step rs []) k) history_change"
  by (simp add: get_rating_changes_def dict_get_map_filter distinct_fold_rating_step)

lemma count_step_cong:
  "dict_get ch k = dict_get ch' k \<Longrightarrow> count_step ch rv k c = count_step ch' rv k c"
  by (cases c) (simp add: count_step_def)

lemma fold_count_step_cong:
  "\<forall>k \<in> set ids. dict_get ch k = dict_get ch' k \<Longrightarrow>
     fold (count_step ch rv) ids c = fold (count_step ch' rv) ids c"
proof (induction ids arbitrary: c)
  case Nil
  then show ?case by simp
next
  case (Cons k ids)
  have "count_step ch rv k c = count_step ch' rv k c"
    using Cons.prems by (intro count_step_cong) simp
  moreover have "\<forall>k \<in> set ids. dict_get ch k = dict_get ch' k"
    using Cons.prems by simp
  ultimately show ?case using Cons.IH by simp
qed

lemma rating_changes_official:
  assumes "unofficial_ids_apart replies"
    and "r' \<in> set replies" "is_official r'" "r_id r' = Some k"
  shows "dict_get (get_rating_changes replies) k =
         dict_get (get_rating_changes (filter is_official replies)) k"
proof -
  have "filter (\<lambda>r. r_id r = Some k) replies
      = filter (\<lambda>r. r_id r = Some k) (filter is_official replies)"
    unfolding filter_filter
  proof (rule filter_cong[OF refl])
    fix x assume "x \<in> set replies"
    then have "r_id x = Some k \<Longrightarrow> is_official x"
      using assms unfolding unofficial_ids_apart_def by metis
    then show "(r_id x = Some k) = (is_official x \<and> r_id x = Some k)" by blast
  qed
  then have "dict_get (fold rating_step replies []) k
      = dict_get (fold rating_step (filter is_official replies) []) k"
    using fold_rating_step_filter[of replies "[]" k]
      fold_rating_step_filter[of "filter is_official replies" "[]" k] by simp
  then show ?thesis by (simp add: dict_get_rating_changes)
qed

lemma count_changes_filter:
  assumes "unofficial_ids_apart replies"
  shows "count_review_changes_by_type replies =
         count_review_changes_by_type (filter is_official replies)"
proof -
  let ?col = "fold official_step replies ([], [])"
  have col: "fold official_step (filter is_official replies) ([], []) = ?col"
    by (rule fold_official_step_filter[symmetric])
  have "\<forall>k \<in> set (fst ?col). dict_get (get_rating_changes replies) k =
         dict_get (get_rating_changes (filter is_official replies)) k"
  proof
    fix k assume "k \<in> set (fst ?col)"
    then obtain r' where "r' \<in> set replies" "is_official r'" "r_id r' = Some k"
      using fold_official_step_ids[of k replies "([], [])"] by auto
    then show "dict_get (get_rating_changes replies) k =
         dict_get (get_rating_changes (filter is_official replies)) k"
      using assms rating_changes_official by blast
  qed
  then show ?thesis
    unfolding count_review_changes_by_type_def Let_def col
    by (rule fold_count_step_cong)
qed

lemmas site_eval =
  count_review_changes_by_type_def get_rating_changes_def rating_step_def official_step_def
  count_step_def is_official_def dict_append_def dict_get_def set_add_def history_change_def
  count_reviews_def count_reviews_step_def has_any_changes_def version_step_def
  mk_review_def List.map_filter_def Let_def

text \<open>A reply without the invitation that shares its id with an official review enters the
  rating history of that review and turns "edited, rating unchanged" into "increase".\<close>

theorem C10_counterexample:
  "\<not> is_official ((mk_review ''r1'' 3 300 8)\<lparr>r_invitations := [''ICLR/-/Official_Comment'']\<rparr>)
   \<and> count_review_changes_by_type [mk_review ''r1'' 1 100 6, mk_review ''r1'' 2 200 6] = (0, 0, 1, 0)
   \<and> count_review_changes_by_type
        [mk_review ''r1'' 1 100 6, mk_review ''r1'' 2 200 6,
         (mk_review ''r1'' 3 300 8)\<lparr>r_invitations := [''ICLR/-/Official_Comment'']\<rparr>] = (1, 0, 0, 0)"
  by (simp add: site_eval)

text \<open>C10 (as the code has it): \<open>count_reviews\<close> and \<open>has_any_changes\<close> see only the replies
  with an Official\_Review invitation, and so do the four counts of
  \<open>count_review_changes_by_type\<close> provided no reply without the invitation shares its id
  with an official review (\<open>get_rating_changes\<close> does not filter by invitation).\<close>

theorem C10_only_official_reviews_counted:
  "count_reviews replies = count_reviews (filter is_official replies)
   \<and> has_any_changes replies = has_any_changes (filter is_official replies)
   \<and> (unofficial_ids_apart replies \<longrightarrow>
        count_review_changes_by_type replies =
        count_review_changes_by_type (filter is_official replies))"
  using fold_count_reviews_step_filter[of replies "{}"] fold_version_step_filter[of replies "[]"]
    count_changes_filter[of replies]
  by (simp add: count_reviews_def has_any_changes_def)

theorem C10_witness:
  "unofficial_ids_apart
     [mk_review ''r1'' 1 100 6, mk_review ''r1'' 2 200 8,
      (mk_review ''c1'' 1 300 2)\<lparr>r_invitations := [''ICLR/-/Official_Comment'']\<rparr>]
   \<and> count_reviews
        [mk_review ''r1'' 1 100 6, mk_review ''r1'' 2 200 8,
         (mk_review ''c1'' 1 300 2)\<lparr>r_invitations := [''ICLR/-/Official_Comment'']\<rparr>] = 1
   \<and> count_review_changes_by_type
        [mk_review ''r1'' 1 100 6, mk_review ''r1'' 2 200 8,
         (mk_review ''c1'' 1 300 2)\<lparr>r_invitations := [''ICLR/-/Official_Comment'']\<rparr>] = (1, 0, 0, 0)"
proof -
  let ?rs = "[mk_review ''r1'' 1 100 6, mk_review ''r1'' 2 200 8,
      (mk_review ''c1'' 1 300 2)\<lparr>r_invitations := [''ICLR/-/Official_Comment'']\<rparr>]"
  have h: "unofficial_ids_apart ?rs"
    by (simp add: unofficial_ids_apart_def is_official_def mk_review_def)
  have f: "filter is_official ?rs = [mk_review ''r1'' 1 100 6, mk_review ''r1'' 2 200 8]"
    by (simp add: is_official_def mk_review_def)
  have "count_reviews ?rs = count_reviews [mk_review ''r1'' 1 100 6, mk_review ''r1'' 2 200 8]"
    and "count_review_changes_by_type ?rs =
         count_review_changes_by_type [mk_review ''r1'' 1 100 6, mk_review ''r1'' 2 200 8]"
    using C10_only_official_reviews_counted[of ?rs] h unfolding f by blast+
  then show ?thesis using h by (simp add: site_eval)
qed

section \<open>The version store of one submission\<close>

lemma same_version_iff: "same_version e r \<longleftrightarrow> version_key e = version_key r"
  by (simp add: same_version_def version_key_def)

lemma coll_entries_iff:
  "distinct (map fst coll) \<Longrightarrow>
     e \<in> coll_entries coll \<longleftrightarrow> (\<exists>rid vs. dict_get coll rid = Some vs \<and> e \<in> set vs)"
proof -
  assume d: "distinct (map fst coll)"
  have "e \<in> coll_entries coll \<longleftrightarrow> (\<exists>p \<in> set coll. e \<in> set (snd p))"
    by (auto simp: coll_entries_def)
  also have "\<dots> \<longleftrightarrow> (\<exists>rid vs. (rid, vs) \<in> set coll \<and> e \<in> set vs)"
    by (metis prod.collapse snd_conv)
  also have "\<dots> \<longleftrightarrow> (\<exists>rid vs. dict_get coll rid = Some vs \<and> e \<in> set vs)"
    using d by (simp add: dict_get_def)
  finally show ?thesis .
qed

lemma coll_entriesI:
  "distinct (map fst coll) \<Longrightarrow> dict_get coll rid = Some vs \<Longrightarrow> e \<in> set vs
     \<Longrightarrow> e \<in> coll_entries coll"
  using coll_entries_iff by blast

lemma add_review_falsy: "\<not> truthy_id (r_id r) \<Longrightarrow> add_review r coll = coll"
  by (cases "r_id r") (auto simp: add_review_def)

lemma add_review_get:
  assumes "r_id r = Some rid" "rid \<noteq> []"
  shows "dict_get (add_review r coll) rid' =
     (if rid' = rid then
        Some (let vs = (case dict_get coll rid of None \<Rightarrow> [] | Some vs \<Rightarrow> vs)
              in if list_ex (\<lambda>e. same_version e r) vs then vs else vs @ [r])
      else dict_get coll rid')"
  using assms
  by (auto simp: add_review_def Let_def dict_get_set dict_get_init split: option.splits)

lemma add_review_distinct:
  "distinct (map fst coll) \<Longrightarrow> distinct (map fst (add_review r coll))"
  by (cases "r_id r")
     (auto simp: add_review_def Let_def distinct_dict_set distinct_dict_init)

lemma add_review_ok:
  assumes "coll_ok coll"
  shows "coll_ok (add_review r coll)"
proof (cases "truthy_id (r_id r)")
  case False
  then show ?thesis using assms by (simp add: add_review_falsy)
next
  case True
  then obtain rid where rid: "r_id r = Some rid" "rid \<noteq> []"
    by (cases "r_id r") auto
  let ?vs = "case dict_get coll rid of None \<Rightarrow> [] | Some vs \<Rightarrow> vs"
  have old: "(\<forall>e \<in> set ?vs. r_id e = Some rid) \<and> distinct (map version_key ?vs)"
    using assms by (auto simp: coll_ok_def split: option.splits)
  have d: "distinct (map fst (add_review r coll))"
    using assms by (simp add: coll_ok_def add_review_distinct)
  have "\<And>rid' vs. dict_get (add_review r coll) rid' = Some vs \<Longrightarrow>
      vs \<noteq> [] \<and> rid' \<noteq> [] \<and> (\<forall>e \<in> set vs. r_id e = Some rid') \<and> distinct (map version_key vs)"
  proof -
    fix rid' vs
    assume g: "dict_get (add_review r coll) rid' = Some vs"
    show "vs \<noteq> [] \<and> rid' \<noteq> [] \<and> (\<forall>e \<in> set vs. r_id e = Some rid') \<and> distinct (map version_key vs)"
    proof (cases "rid' = rid")
      case False
      then have "dict_get coll rid' = Some vs" using g by (simp add: add_review_get[OF rid])
      then show ?thesis using assms unfolding coll_ok_def by blast
    next
      case True
      show ?thesis
      proof (cases "list_ex (\<lambda>e. same_version e r) ?vs")
        case dup: True
        then have "vs = ?vs" using g True by (simp add: add_review_get[OF rid])
        moreover have "?vs \<noteq> []" using dup by auto
        ultimately show ?thesis using old True rid by simp
      next
        case nodup: False
        then have vs: "vs = ?vs @ [r]" using g True by (simp add: add_review_get[OF rid])
        have "version_key r \<notin> version_key ` set ?vs"
          using nodup by (auto simp: list_ex_iff same_version_iff)
        then show ?thesis using old True rid unfolding vs by simp
      qed
    qed
  qed
  with d show ?thesis unfolding coll_ok_def by blast
qed

lemma add_review_entries_mono:
  assumes "distinct (map fst coll)" "e \<in> coll_entries coll"
  shows "e \<in> coll_entries (add_review r coll)"
proof (cases "truthy_id (r_id r)")
  case False
  then show ?thesis using assms by (simp add: add_review_falsy)
next
  case True
  then obtain rid where rid: "r_id r = Some rid" "rid \<noteq> []"
    by (cases "r_id r") auto
  from assms obtain rid' vs where g: "dict_get coll rid' = Some vs" "e \<in> set vs"
    by (auto simp: coll_entries_iff)
  have "\<exists>vs'. dict_get (add_review r coll) rid' = Some vs' \<and> e \<in> set vs'"
    using g by (auto simp: add_review_get[OF rid] Let_def)
  then show ?thesis
    using add_review_distinct[OF assms(1)] by (auto simp: coll_entries_iff)
qed

lemma add_review_entries_sound:
  assumes "distinct (map fst coll)" "e \<in> coll_entries (add_review r coll)"
  shows "e \<in> coll_entries coll \<or> (e = r \<and> truthy_id (r_id r))"
proof (cases "truthy_id (r_id r)")
  case False
  then show ?thesis using assms by (simp add: add_review_falsy)
next
  case True
  then obtain rid where rid: "r_id r = Some rid" "rid \<noteq> []"
    by (cases "r_id r") auto
  from assms obtain rid' vs where g: "dict_get (add_review r coll) rid' = Some vs" "e \<in> set vs"
    using add_review_distinct[OF assms(1)] by (auto simp: coll_entries_iff)
  show ?thesis
  proof (cases "rid' = rid")
    case False
    then have "dict_get coll rid' = Some vs" using g by (simp add: add_review_get[OF rid])
    then show ?thesis using g(2) assms(1) by (auto simp: coll_entries_iff)
  next
    case same: True
    let ?vs = "case dict_get coll rid of None \<Rightarrow> [] | Some vs \<Rightarrow> vs"
    have "set vs \<subseteq> insert r (set ?vs)"
      using g(1) same by (auto simp: add_review_get[OF rid] Let_def split: if_splits)
    then have "e = r \<or> e \<in> set ?vs" using g(2) by auto
    moreover have "e \<in> set ?vs \<Longrightarrow> e \<in> coll_entries coll"
    proof -
      assume a: "e \<in> set ?vs"
      then obtain vs0 where "dict_get coll rid = Some vs0" "e \<in> set vs0"
        by (cases "dict_get coll rid") auto
      then show ?thesis using assms(1) coll_entries_iff by blast
    qed
    ultimately show ?thesis using True by blast
  qed
qed

lemma add_review_covers:
  assumes "coll_ok coll" "truthy_id (r_id r)"
  shows "\<exists>e \<in> coll_entries (add_review r coll). entry_key e = entry_key r"
proof -
  from assms(2) obtain rid where rid: "r_id r = Some rid" "rid \<noteq> []"
    by (cases "r_id r") auto
  let ?vs = "case dict_get coll rid of None \<Rightarrow> [] | Some vs \<Rightarrow> vs"
  have d: "distinct (map fst (add_review r coll))"
    using assms(1) by (simp add: coll_ok_def add_review_distinct)
  have old: "\<forall>e \<in> set ?vs. r_id e = Some rid"
  proof (cases "dict_get coll rid")
    case None
    then show ?thesis by simp
  next
    case (Some vs0)
    then have "\<forall>e \<in> set vs0. r_id e = Some rid"
      using assms(1) unfolding coll_ok_def by blast
    then show ?thesis using Some by simp
  qed
  show ?thesis
  proof (cases "list_ex (\<lambda>e. same_version e r) ?vs")
    case True
    then obtain e where e: "e \<in> set ?vs" "same_version e r" by (auto simp: list_ex_iff)
    have "dict_get (add_review r coll) rid = Some ?vs"
      using True by (simp add: add_review_get[OF rid])
    then have "e \<in> coll_entries (add_review r coll)"
      using e(1) d coll_entriesI by blast
    moreover have "entry_key e = entry_key r"
      using e old rid by (simp add: entry_key_def same_version_def)
    ultimately show ?thesis by blast
  next
    case False
    then have "dict_get (add_review r coll) rid = Some (?vs @ [r])"
      by (simp add: add_review_get[OF rid])
    then have "r \<in> coll_entries (add_review r coll)"
      using d coll_entriesI[of "add_review r coll" rid "?vs @ [r]" r] by simp
    then show ?thesis by blast
  qed
qed

lemma coll_ok_Nil: "coll_ok []"
  by (simp add: coll_ok_def dict_get_def)

lemma coll_ok_distinct: "coll_ok coll \<Longrightarrow> distinct (map fst coll)"
  by (simp add: coll_ok_def)

lemma fold_add_review_ok: "coll_ok coll \<Longrightarrow> coll_ok (fold add_review rs coll)"
proof (induction rs arbitrary: coll)
  case Nil
  then show ?case by simp
next
  case (Cons r rs)
  from Cons.IH[OF add_review_ok[OF Cons.prems]] show ?case by simp
qed

lemma fold_add_review_mono:
  "coll_ok coll \<Longrightarrow> e \<in> coll_entries coll \<Longrightarrow> e \<in> coll_entries (fold add_review rs coll)"
proof (induction rs arbitrary: coll)
  case Nil
  then show ?case by simp
next
  case (Cons r rs)
  have "e \<in> coll_entries (add_review r coll)"
    using coll_ok_distinct[OF Cons.prems(1)] Cons.prems(2) by (rule add_review_entries_mono)
  from Cons.IH[OF add_review_ok[OF Cons.prems(1)] this] show ?case by simp
qed

lemma fold_add_review_sound:
  "coll_ok coll \<Longrightarrow> e \<in> coll_entries (fold add_review rs coll) \<Longrightarrow>
     e \<in> coll_entries coll \<or> (e \<in> set rs \<and> truthy_id (r_id e))"
proof (induction rs arbitrary: coll)
  case Nil
  then show ?case by simp
next
  case (Cons r rs)
  have "e \<in> coll_entries (fold add_review rs (add_review r coll))"
    using Cons.prems(2) by simp
  from Cons.IH[OF add_review_ok[OF Cons.prems(1)] this]
  have "e \<in> coll_entries (add_review r coll) \<or> (e \<in> set rs \<and> truthy_id (r_id e))" .
  then show ?case
    using add_review_entries_sound[OF coll_ok_distinct[OF Cons.prems(1)], of e r] by auto
qed

lemma fold_add_review_covers:
  "coll_ok coll \<Longrightarrow> r \<in> set rs \<Longrightarrow> truthy_id (r_id r) \<Longrightarrow>
     \<exists>e \<in> coll_entries (fold add_review rs coll). entry_key e = entry_key r"
proof (induction rs arbitrary: coll)
  case Nil
  then show ?case by simp
next
  case (Cons a rs)
  have ok: "coll_ok (add_review a coll)" using Cons.prems(1) by (rule add_review_ok)
  show ?case
  proof (cases "r \<in> set rs")
    case True
    from Cons.IH[OF ok True Cons.prems(3)] show ?thesis by simp
  next
    case False
    then have "r = a" using Cons.prems(2) by simp
    then obtain e where e: "e \<in> coll_entries (add_review a coll)" "entry_key e = entry_key r"
      using add_review_covers[OF Cons.prems(1), of a] Cons.prems(3) by blast
    have "e \<in> coll_entries (fold add_review rs (add_review a coll))"
      using ok e(1) by (rule fold_add_review_mono)
    then show ?thesis using e(2) by auto
  qed
qed

section \<open>The version store of all submissions\<close>

lemma collect_submission_falsy: "\<not> truthy_id sid \<Longrightarrow> collect_submission sid rs rc = rc"
  by (cases sid) (auto simp: collect_submission_def)

lemma collect_submission_get:
  assumes "sid = Some k" "k \<noteq> []"
  shows "dict_get (collect_submission sid rs rc) k' =
     (if k' = k then Some (fold add_review rs (case dict_get rc k of None \<Rightarrow> [] | Some c \<Rightarrow> c))
      else dict_get rc k')"
  using assms
  by (auto simp: collect_submission_def Let_def dict_get_set dict_get_init split: option.splits)

lemma collect_submission_distinct:
  "distinct (map fst rc) \<Longrightarrow> distinct (map fst (collect_submission sid rs rc))"
  by (cases sid) (auto simp: collect_submission_def Let_def distinct_dict_set distinct_dict_init)

lemma rc_ok_lookup: "rc_ok rc \<Longrightarrow> coll_ok (case dict_get rc k of None \<Rightarrow> [] | Some c \<Rightarrow> c)"
  by (cases "dict_get rc k") (auto simp: rc_ok_def coll_ok_Nil)

lemma rc_entries_lookup:
  "rc_entries rc k = coll_entries (case dict_get rc k of None \<Rightarrow> [] | Some c \<Rightarrow> c)"
  by (cases "dict_get rc k") (auto simp: rc_entries_def coll_entries_def)

lemma collect_submission_ok:
  assumes "rc_ok rc"
  shows "rc_ok (collect_submission sid rs rc)"
proof (cases "truthy_id sid")
  case False
  then show ?thesis using assms by (simp add: collect_submission_falsy)
next
  case True
  then obtain k where k: "sid = Some k" "k \<noteq> []" by (cases sid) auto
  have "distinct (map fst (collect_submission sid rs rc))"
    using assms by (simp add: rc_ok_def collect_submission_distinct)
  moreover have "\<And>k' coll. dict_get (collect_submission sid rs rc) k' = Some coll \<Longrightarrow> coll_ok coll"
  proof -
    fix k' coll assume g: "dict_get (collect_submission sid rs rc) k' = Some coll"
    show "coll_ok coll"
    proof (cases "k' = k")
      case True
      then have "coll = fold add_review rs (case dict_get rc k of None \<Rightarrow> [] | Some c \<Rightarrow> c)"
        using g by (simp add: collect_submission_get[OF k])
      then show ?thesis using fold_add_review_ok[OF rc_ok_lookup[OF assms]] by simp
    next
      case False
      then have "dict_get rc k' = Some coll" using g by (simp add: collect_submission_get[OF k])
      then show ?thesis using assms unfolding rc_ok_def by blast
    qed
  qed
  ultimately show ?thesis unfolding rc_ok_def by blast
qed

lemma collect_submission_entries:
  assumes "sid = Some k" "k \<noteq> []"
  shows "rc_entries (collect_submission sid rs rc) k' =
     (if k' = k then coll_entries (fold add_review rs (case dict_get rc k of None \<Rightarrow> [] | Some c \<Rightarrow> c))
      else rc_entries rc k')"
  by (simp add: rc_entries_def collect_submission_get[OF assms])

lemma collect_submission_mono:
  assumes "rc_ok rc" "e \<in> rc_entries rc k'"
  shows "e \<in> rc_entries (collect_submission sid rs rc) k'"
proof (cases "truthy_id sid")
  case False
  then show ?thesis using assms by (simp add: collect_submission_falsy)
next
  case True
  then obtain k where k: "sid = Some k" "k \<noteq> []" by (cases sid) auto
  show ?thesis
  proof (cases "k' = k")
    case True
    have "e \<in> coll_entries (case dict_get rc k of None \<Rightarrow> [] | Some c \<Rightarrow> c)"
      using assms(2) True by (simp add: rc_entries_lookup)
    then have "e \<in> coll_entries (fold add_review rs (case dict_get rc k of None \<Rightarrow> [] | Some c \<Rightarrow> c))"
      using rc_ok_lookup[OF assms(1)] fold_add_review_mono by blast
    then show ?thesis using True by (simp add: collect_submission_entries[OF k])
  next
    case False
    then show ?thesis using assms(2) by (simp add: collect_submission_entries[OF k])
  qed
qed

lemma collect_submission_sound:
  assumes "rc_ok rc" "e \<in> rc_entries (collect_submission sid rs rc) k'"
  shows "e \<in> rc_entries rc k' \<or> (sid = Some k' \<and> k' \<noteq> [] \<and> e \<in> set rs \<and> truthy_id (r_id e))"
proof (cases "truthy_id sid")
  case False
  then show ?thesis using assms by (simp add: collect_submission_falsy)
next
  case True
  then obtain k where k: "sid = Some k" "k \<noteq> []" by (cases sid) auto
  show ?thesis
  proof (cases "k' = k")
    case True
    have "e \<in> coll_entries (fold add_review rs (case dict_get rc k of None \<Rightarrow> [] | Some c \<Rightarrow> c))"
      using assms(2) True by (simp add: collect_submission_entries[OF k])
    then have "e \<in> coll_entries (case dict_get rc k of None \<Rightarrow> [] | Some c \<Rightarrow> c)
        \<or> (e \<in> set rs \<and> truthy_id (r_id e))"
      using fold_add_review_sound[OF rc_ok_lookup[OF assms(1)]] by blast
    then show ?thesis using True k by (auto simp: rc_entries_lookup)
  next
    case False
    then show ?thesis using assms(2) by (simp add: collect_submission_entries[OF k])
  qed
qed

lemma collect_submission_covers:
  assumes "rc_ok rc" "sid = Some k" "k \<noteq> []" "r \<in> set rs" "truthy_id (r_id r)"
  shows "\<exists>e \<in> rc_entries (collect_submission sid rs rc) k. entry_key e = entry_key r"
  using fold_add_review_covers[OF rc_ok_lookup[OF assms(1)] assms(4,5), of k]
  by (simp add: collect_submission_entries[OF assms(2,3)])

lemma collect_submission_key:
  "sid = Some k \<Longrightarrow> k \<noteq> [] \<Longrightarrow> dict_get (collect_submission sid rs rc) k \<noteq> None"
  by (simp add: collect_submission_get)

lemma collect_submission_key_mono:
  assumes "dict_get rc k \<noteq> None"
  shows "dict_get (collect_submission sid rs rc) k \<noteq> None"
proof (cases "truthy_id sid")
  case False
  then show ?thesis using assms by (simp add: collect_submission_falsy)
next
  case True
  then obtain k' where k: "sid = Some k'" "k' \<noteq> []" by (cases sid) auto
  show ?thesis using assms by (simp add: collect_submission_get[OF k])
qed

lemma collect_reviews_flat:
  "collect_reviews snaps = fold collect_step (concat (map snd snaps)) []"
proof -
  have "\<And>rc. fold collect_file snaps rc = fold collect_step (concat (map snd snaps)) rc"
  proof (induction snaps)
    case Nil
    show ?case by simp
  next
    case (Cons a snaps)
    have "collect_file a rc = fold collect_step (snd a) rc"
      by (simp add: collect_file_def collect_step_def[abs_def])
    then show ?case using Cons by simp
  qed
  then show ?thesis by (simp add: collect_reviews_def)
qed

lemma fold_collect_ok: "rc_ok rc \<Longrightarrow> rc_ok (fold collect_step subs rc)"
proof (induction subs arbitrary: rc)
  case Nil
  then show ?case by simp
next
  case (Cons s subs)
  have "rc_ok (collect_step s rc)"
    unfolding collect_step_def using Cons.prems by (rule collect_submission_ok)
  from Cons.IH[OF this] show ?case by simp
qed

lemma fold_collect_mono:
  "rc_ok rc \<Longrightarrow> e \<in> rc_entries rc k \<Longrightarrow> e \<in> rc_entries (fold collect_step subs rc) k"
proof (induction subs arbitrary: rc)
  case Nil
  then show ?case by simp
next
  case (Cons s subs)
  have ok: "rc_ok (collect_step s rc)"
    unfolding collect_step_def using Cons.prems(1) by (rule collect_submission_ok)
  have "e \<in> rc_entries (collect_step s rc) k"
    unfolding collect_step_def using Cons.prems by (rule collect_submission_mono)
  from Cons.IH[OF ok this] show ?case by simp
qed

lemma fold_collect_sound:
  "rc_ok rc \<Longrightarrow> e \<in> rc_entries (fold collect_step subs rc) k \<Longrightarrow>
     e \<in> rc_entries rc k \<or>
     (k \<noteq> [] \<and> truthy_id (r_id e) \<and> (\<exists>s \<in> set subs. s_id s = Some k \<and> e \<in> set (direct_replies s)))"
proof (induction subs arbitrary: rc)
  case Nil
  then show ?case by simp
next
  case (Cons s subs)
  have ok: "rc_ok (collect_step s rc)"
    unfolding collect_step_def using Cons.prems(1) by (rule collect_submission_ok)
  have "e \<in> rc_entries (fold collect_step subs (collect_step s rc)) k"
    using Cons.prems(2) by simp
  from Cons.IH[OF ok this]
  have "e \<in> rc_entries (collect_step s rc) k \<or>
     (k \<noteq> [] \<and> truthy_id (r_id e) \<and> (\<exists>s \<in> set subs. s_id s = Some k \<and> e \<in> set (direct_replies s)))" .
  moreover have "e \<in> rc_entries (collect_step s rc) k \<Longrightarrow>
     e \<in> rc_entries rc k \<or> (s_id s = Some k \<and> k \<noteq> [] \<and> e \<in> set (direct_replies s) \<and> truthy_id (r_id e))"
    unfolding collect_step_def using Cons.prems(1) by (rule collect_submission_sound)
  ultimately show ?case by auto
qed

lemma fold_collect_covers:
  "rc_ok rc \<Longrightarrow> s \<in> set subs \<Longrightarrow> s_id s = Some k \<Longrightarrow> k \<noteq> [] \<Longrightarrow>
   r \<in> set (direct_replies s) \<Longrightarrow> truthy_id (r_id r) \<Longrightarrow>
     \<exists>e \<in> rc_entries (fold collect_step subs rc) k. entry_key e = entry_key r"
proof (induction subs arbitrary: rc)
  case Nil
  then show ?case by simp
next
  case (Cons a subs)
  have ok: "rc_ok (collect_step a rc)"
    unfolding collect_step_def using Cons.prems(1) by (rule collect_submission_ok)
  show ?case
  proof (cases "s \<in> set subs")
    case True
    from Cons.IH[OF ok True Cons.prems(3-6)] show ?thesis by simp
  next
    case False
    then have sa: "s = a" using Cons.prems(2) by simp
    obtain e where e: "e \<in> rc_entries (collect_step a rc) k" "entry_key e = entry_key r"
      unfolding collect_step_def
      using collect_submission_covers[OF Cons.prems(1) _ Cons.prems(4), of "s_id a" r "direct_replies a"]
        Cons.prems(3,5,6) sa by blast
    have "e \<in> rc_entries (fold collect_step subs (collect_step a rc)) k"
      using ok e(1) by (rule fold_collect_mono)
    then show ?thesis using e(2) by auto
  qed
qed

lemma fold_collect_key_mono:
  "dict_get rc k \<noteq> None \<Longrightarrow> dict_get (fold collect_step subs rc) k \<noteq> None"
proof (induction subs arbitrary: rc)
  case Nil
  then show ?case by simp
next
  case (Cons a subs)
  have "dict_get (collect_step a rc) k \<noteq> None"
    unfolding collect_step_def using Cons.prems by (rule collect_submission_key_mono)
  from Cons.IH[OF this] show ?case by simp
qed

lemma fold_collect_key:
  "s \<in> set subs \<Longrightarrow> s_id s = Some k \<Longrightarrow> k \<noteq> [] \<Longrightarrow>
     dict_get (fold collect_step subs rc) k \<noteq> None"
proof (induction subs arbitrary: rc)
  case Nil
  then show ?case by simp
next
  case (Cons a subs)
  show ?case
  proof (cases "s \<in> set subs")
    case True
    from Cons.IH[OF True Cons.prems(2,3)] show ?thesis by simp
  next
    case False
    then have "s = a" using Cons.prems(1) by simp
    then have "dict_get (collect_step a rc) k \<noteq> None"
      unfolding collect_step_def using Cons.prems(2,3) by (simp add: collect_submission_key)
    then have "dict_get (fold collect_step subs (collect_step a rc)) k \<noteq> None"
      by (rule fold_collect_key_mono)
    then show ?thesis by simp
  qed
qed

lemma rc_ok_Nil: "rc_ok []"
  by (simp add: rc_ok_def dict_get_def)

lemma rc_entries_Nil: "rc_entries [] k = {}"
  by (simp add: rc_entries_def dict_get_def)

lemma collect_reviews_ok: "rc_ok (collect_reviews snaps)"
  unfolding collect_reviews_flat using rc_ok_Nil by (rule fold_collect_ok)

lemma collect_reviews_sound: "rc_entries (collect_reviews snaps) k \<subseteq> fed snaps k"
proof
  fix e assume "e \<in> rc_entries (collect_reviews snaps) k"
  then have "truthy_id (r_id e) \<and>
      (\<exists>s \<in> set (concat (map snd snaps)). s_id s = Some k \<and> e \<in> set (direct_replies s))"
    unfolding collect_reviews_flat
    using fold_collect_sound[OF rc_ok_Nil, of e "concat (map snd snaps)" k]
    by (simp add: rc_entries_Nil)
  then show "e \<in> fed snaps k" by (auto simp: fed_def)
qed

lemma collect_reviews_covers:
  assumes "k \<noteq> []" "r \<in> fed snaps k"
  shows "\<exists>e \<in> rc_entries (collect_reviews snaps) k. entry_key e = entry_key r"
proof -
  from assms(2) obtain snap s where s: "snap \<in> set snaps" "s \<in> set (snd snap)"
      "s_id s = Some k" "r \<in> set (direct_replies s)" and t: "truthy_id (r_id r)"
    by (auto simp: fed_def)
  have "s \<in> set (concat (map snd snaps))" using s(1,2) by auto
  then show ?thesis
    unfolding collect_reviews_flat
    using fold_collect_covers[OF rc_ok_Nil _ s(3) assms(1) s(4) t] by blast
qed

lemma collect_reviews_keys:
  assumes "snap \<in> set snaps" "s \<in> set (snd snap)" "s_id s = Some k" "k \<noteq> []"
  shows "dict_get (collect_reviews snaps) k \<noteq> None"
proof -
  have "s \<in> set (concat (map snd snaps))" using assms(1,2) by auto
  then show ?thesis
    unfolding collect_reviews_flat using assms(3,4) by (rule fold_collect_key)
qed

lemma collect_reviews_entry_keys:
  "k \<noteq> [] \<Longrightarrow> entry_key ` rc_entries (collect_reviews snaps) k = entry_key ` fed snaps k"
proof
  show "entry_key ` rc_entries (collect_reviews snaps) k \<subseteq> entry_key ` fed snaps k"
    using collect_reviews_sound[of snaps k] by blast
next
  assume k: "k \<noteq> []"
  show "entry_key ` fed snaps k \<subseteq> entry_key ` rc_entries (collect_reviews snaps) k"
  proof
    fix x assume "x \<in> entry_key ` fed snaps k"
    then obtain r where r: "r \<in> fed snaps k" "x = entry_key r" by blast
    from collect_reviews_covers[OF k r(1)]
    obtain e where "e \<in> rc_entries (collect_reviews snaps) k" "entry_key e = entry_key r"
      by blast
    then show "x \<in> entry_key ` rc_entries (collect_reviews snaps) k"
      using r(2) by (metis imageI)
  qed
qed

lemma fed_sort: "fed (sort_snapshots snaps) k = fed snaps k"
  by (simp add: fed_def sort_snapshots_def)

section \<open>The shape of the merged output\<close>

lemma direct_replies_attach:
  "dict_get rc (fst e) = Some coll \<Longrightarrow>
     direct_replies (snd (attach_reviews rc e)) = all_review_versions coll"
  by (simp add: attach_reviews_def direct_replies_def Let_def)

lemma s_id_attach: "s_id (snd (attach_reviews rc e)) = s_id (snd e)"
  by (simp add: attach_reviews_def Let_def split: option.splits)

lemma s_number_attach: "s_number (snd (attach_reviews rc e)) = s_number (snd e)"
  by (simp add: attach_reviews_def Let_def split: option.splits)

text \<open>Every entry of \<open>merged_submissions\<close> has collected reviews, since the metadata source
  is one of the files the collection loop goes through.\<close>

lemma index_key_collected:
  assumes "snaps \<noteq> []" "e \<in> set (index_submissions (snd (last (sort_snapshots snaps))))"
  shows "dict_get (collect_reviews (sort_snapshots snaps)) (fst e) \<noteq> None"
proof -
  have src: "last (sort_snapshots snaps) \<in> set (sort_snapshots snaps)"
    using assms(1) by (simp add: sort_snapshots_Nil_iff)
  have "snd e \<in> set (snd (last (sort_snapshots snaps))) \<and> s_id (snd e) = Some (fst e) \<and> fst e \<noteq> []"
    using index_submissions_sound[of "fst e" "snd e"] assms(2) by simp
  then show ?thesis using collect_reviews_keys[OF src] by blast
qed

lemma result_elem:
  assumes "snaps \<noteq> []" "merge_reviews snaps = Inr result" "s' \<in> set result"
  shows "\<exists>k coll. k \<noteq> [] \<and> s_id s' = Some k \<and>
           dict_get (collect_reviews (sort_snapshots snaps)) k = Some coll \<and>
           direct_replies s' = all_review_versions coll"
proof -
  let ?rc = "collect_reviews (sort_snapshots snaps)"
  let ?idx = "index_submissions (snd (last (sort_snapshots snaps)))"
  from assms have "s' \<in> set (map snd (map (attach_reviews ?rc) ?idx))"
    by (auto simp: merge_reviews_eq)
  then obtain e where e: "e \<in> set ?idx" and s': "s' = snd (attach_reviews ?rc e)"
    by auto
  obtain coll where coll: "dict_get ?rc (fst e) = Some coll"
    using index_key_collected[OF assms(1) e] by auto
  have "s_id (snd e) = Some (fst e) \<and> fst e \<noteq> []"
    using index_submissions_sound[of "fst e" "snd e"] e by simp
  then have "fst e \<noteq> [] \<and> s_id s' = Some (fst e)" unfolding s' by (simp add: s_id_attach)
  moreover have "direct_replies s' = all_review_versions coll"
    unfolding s' using coll by (rule direct_replies_attach)
  ultimately show ?thesis using coll by blast
qed

lemma merge_reviews_Inr_nonempty: "merge_reviews snaps = Inr result \<Longrightarrow> snaps \<noteq> []"
  by (auto simp: merge_reviews_def sort_snapshots_def latest_submissions_Nil)

section \<open>Ordering\<close>









section \<open>De-duplication\<close>

lemma coll_ok_set:
  assumes "coll_ok coll" "(rid, vs) \<in> set coll"
  shows "(\<forall>r \<in> set vs. r_id r = Some rid) \<and> distinct (map version_key vs)"
proof -
  have "dict_get coll rid = Some vs"
    using assms by (simp add: coll_ok_def dict_get_def)
  then show ?thesis using assms(1) unfolding coll_ok_def by blast
qed

lemma distinct_entry_keys_group:
  assumes "\<forall>r \<in> set vs. r_id r = Some rid" "distinct (map version_key vs)"
  shows "distinct (map entry_key vs)"
proof -
  have "map entry_key vs = map (\<lambda>r. (Some rid, version_key r)) vs"
    using assms(1) by (simp add: entry_key_def version_key_def)
  also have "\<dots> = map (Pair (Some rid)) (map version_key vs)" by simp
  finally show ?thesis using assms(2) by (simp add: distinct_map inj_on_def)
qed

lemma distinct_entry_keys_flat:
  assumes "distinct (map fst coll)"
    and "\<forall>p \<in> set coll. (\<forall>r \<in> set (snd p). r_id r = Some (fst p)) \<and> distinct (map version_key (snd p))"
  shows "distinct (map entry_key (concat (map snd coll)))"
  using assms
proof (induction coll)
  case Nil
  then show ?case by simp
next
  case (Cons p coll)
  have head: "distinct (map entry_key (snd p))"
    using Cons.prems(2) by (intro distinct_entry_keys_group[of _ "fst p"]) auto
  have tail: "distinct (map entry_key (concat (map snd coll)))"
    using Cons.prems by (intro Cons.IH) auto
  have disj: "entry_key ` set (snd p) \<inter> entry_key ` set (concat (map snd coll)) = {}"
  proof (rule ccontr)
    assume "entry_key ` set (snd p) \<inter> entry_key ` set (concat (map snd coll)) \<noteq> {}"
    then obtain x where "x \<in> entry_key ` set (snd p)"
        "x \<in> entry_key ` set (concat (map snd coll))" by blast
    then obtain a b where a: "a \<in> set (snd p)" and b: "b \<in> set (concat (map snd coll))"
      and eq: "entry_key a = entry_key b" by (metis imageE)
    from b obtain q where q: "q \<in> set coll" "b \<in> set (snd q)" by auto
    have "r_id a = Some (fst p)" using Cons.prems(2) a by simp
    moreover have "r_id b = Some (fst q)" using Cons.prems(2) q by simp
    moreover have "r_id a = r_id b" using eq by (simp add: entry_key_def)
    ultimately have "fst p = fst q" by simp
    then show False using Cons.prems(1) q(1) by auto
  qed
  show ?case using head tail disj by simp
qed

lemma distinct_entry_keys_coll:
  assumes "coll_ok coll"
  shows "distinct (map entry_key (concat (map snd coll)))"
proof (rule distinct_entry_keys_flat)
  show "distinct (map fst coll)" using assms by (rule coll_ok_distinct)
  show "\<forall>p \<in> set coll. (\<forall>r \<in> set (snd p). r_id r = Some (fst p)) \<and> distinct (map version_key (snd p))"
  proof
    fix p assume "p \<in> set coll"
    then have "(fst p, snd p) \<in> set coll" by simp
    from coll_ok_set[OF assms this]
    show "(\<forall>r \<in> set (snd p). r_id r = Some (fst p)) \<and> distinct (map version_key (snd p))" .
  qed
qed

lemma distinct_entry_keys_versions:
  "coll_ok coll \<Longrightarrow> distinct (map entry_key (all_review_versions coll))"
  using distinct_entry_keys_coll[of coll]
  by (simp add: all_review_versions_def distinct_map)

lemma result_distinct:
  assumes "merge_reviews snaps = Inr result" "s' \<in> set result"
  shows "distinct (map entry_key (direct_replies s'))"
proof -
  have ne: "snaps \<noteq> []" using assms(1) by (rule merge_reviews_Inr_nonempty)
  from result_elem[OF ne assms] obtain k coll where
    kc: "dict_get (collect_reviews (sort_snapshots snaps)) k = Some coll"
      "direct_replies s' = all_review_versions coll" by blast
  have "coll_ok coll"
    using collect_reviews_ok[of "sort_snapshots snaps"] kc(1) unfolding rc_ok_def by blast
  then show ?thesis unfolding kc(2) by (rule distinct_entry_keys_versions)
qed

section \<open>Counting the merged entries\<close>

lemma set_all_review_versions: "set (all_review_versions coll) = coll_entries coll"
  by (simp add: all_review_versions_def coll_entries_def)

lemma attached_length:
  assumes "snaps \<noteq> []" "e \<in> set (index_submissions (snd (last (sort_snapshots snaps))))"
  shows "length (direct_replies (snd (attach_reviews (collect_reviews (sort_snapshots snaps)) e)))
       = card (entry_key ` fed snaps (fst e))"
proof -
  let ?rc = "collect_reviews (sort_snapshots snaps)"
  obtain coll where coll: "dict_get ?rc (fst e) = Some coll"
    using index_key_collected[OF assms] by auto
  have k: "fst e \<noteq> []"
    using index_submissions_sound[of "fst e" "snd e"] assms(2) by simp
  have ok: "coll_ok coll" using collect_reviews_ok[of "sort_snapshots snaps"] coll
    unfolding rc_ok_def by blast
  have dr: "direct_replies (snd (attach_reviews ?rc e)) = all_review_versions coll"
    using coll by (rule direct_replies_attach)
  have "length (all_review_versions coll) = length (map entry_key (all_review_versions coll))"
    by simp
  also have "\<dots> = card (set (map entry_key (all_review_versions coll)))"
    using distinct_entry_keys_versions[OF ok] by (simp only: distinct_card)
  also have "\<dots> = card (entry_key ` coll_entries coll)"
    by (simp add: set_all_review_versions)
  also have "coll_entries coll = rc_entries ?rc (fst e)"
    using coll by (simp add: rc_entries_def)
  also have "entry_key ` rc_entries ?rc (fst e) = entry_key ` fed (sort_snapshots snaps) (fst e)"
    using k by (rule collect_reviews_entry_keys)
  finally show ?thesis unfolding dr by (simp add: fed_sort)
qed

lemma sum_list_sort_key: "sum_list (map f (sort_key g xs)) = sum_list (map (f::'a \<Rightarrow> nat) xs)"
proof -
  have "mset (map f (sort_key g xs)) = mset (map f xs)" by simp
  then show ?thesis by (metis sum_mset_sum_list)
qed

lemma keys_index_submission_distinct:
  "distinct (map fst m) \<Longrightarrow> distinct (map fst (index_submission s m))"
  by (auto simp: index_submission_def distinct_dict_set split: option.splits)

lemma distinct_index_submissions: "distinct (map fst (index_submissions subs))"
proof -
  have "\<And>m. distinct (map fst m) \<Longrightarrow> distinct (map fst (fold index_submission subs m))"
  proof (induction subs)
    case Nil
    then show ?case by simp
  next
    case (Cons a subs)
    from Cons.IH[OF keys_index_submission_distinct[OF Cons.prems]] show ?case by simp
  qed
  then show ?thesis by (simp add: index_submissions_def)
qed

lemma total_formula:
  assumes "merge_reviews snaps = Inr result"
  shows "total_review_entries (analyze_data result)
       = (\<Sum>k \<in> source_ids snaps. card (entry_key ` fed snaps k))"
proof -
  have ne: "snaps \<noteq> []" using assms by (rule merge_reviews_Inr_nonempty)
  let ?rc = "collect_reviews (sort_snapshots snaps)"
  let ?idx = "index_submissions (snd (last (sort_snapshots snaps)))"
  have res: "result = sort_key (\<lambda>s. get0 (s_number s)) (map snd (map (attach_reviews ?rc) ?idx))"
    using assms ne by (simp add: merge_reviews_eq)
  have "total_review_entries (analyze_data result)
      = sum_list (map (\<lambda>s. length (direct_replies s)) (map snd (map (attach_reviews ?rc) ?idx)))"
    unfolding total_review_entries_eq res by (rule sum_list_sort_key)
  also have "\<dots> = sum_list (map (\<lambda>e. length (direct_replies (snd (attach_reviews ?rc e)))) ?idx)"
    by (simp add: comp_def)
  also have "\<dots> = sum_list (map (\<lambda>e. card (entry_key ` fed snaps (fst e))) ?idx)"
    by (rule arg_cong[where f = sum_list], rule map_cong[OF refl]) (rule attached_length[OF ne])
  also have "\<dots> = sum_list (map (\<lambda>k. card (entry_key ` fed snaps k)) (map fst ?idx))"
    by (simp add: comp_def)
  also have "\<dots> = (\<Sum>k \<in> set (map fst ?idx). card (entry_key ` fed snaps k))"
    using distinct_index_submissions by (rule sum_list_distinct_conv_sum_set)
  finally show ?thesis by (simp add: source_ids_def)
qed

section \<open>The metadata source when a snapshot is fed twice\<close>

lemma snapshot_key_inj: "snapshot_key x = snapshot_key y \<Longrightarrow> fst x = fst y"
  by (simp add: snapshot_key_def)

lemma last_sort_snapshots_copy:
  assumes "distinct (map fst snaps)" "x \<in> set snaps"
  shows "last (sort_snapshots (snaps @ [x])) = last (sort_snapshots snaps)"
proof -
  have ne: "snaps \<noteq> []" using assms(2) by auto
  let ?l = "last (sort_snapshots snaps)" and ?l' = "last (sort_snapshots (snaps @ [x]))"
  have l: "?l \<in> set snaps" using ne by (rule last_sort_snapshots_in)
  have "?l' \<in> set (snaps @ [x])" by (rule last_sort_snapshots_in) simp
  then have l': "?l' \<in> set snaps" using assms(2) by auto
  have "snapshot_key ?l' \<le> snapshot_key ?l" using l' by (rule last_sort_snapshots_max)
  moreover have "snapshot_key ?l \<le> snapshot_key ?l'"
    by (rule last_sort_snapshots_max) (use l in simp)
  ultimately have "fst ?l' = fst ?l" by (intro snapshot_key_inj) simp
  then show ?thesis
    using assms(1) l l' by (meson distinct_map inj_onD)
qed

lemma fed_copy: "x \<in> set snaps \<Longrightarrow> fed (snaps @ [x]) k = fed snaps k"
  by (auto simp: fed_def)

lemma source_ids_copy:
  "distinct (map fst snaps) \<Longrightarrow> x \<in> set snaps \<Longrightarrow> source_ids (snaps @ [x]) = source_ids snaps"
  by (simp add: source_ids_def last_sort_snapshots_copy)

lemma total_copy:
  assumes "distinct (map fst snaps)" "x \<in> set snaps"
    and "merge_reviews snaps = Inr r1" "merge_reviews (snaps @ [x]) = Inr r2"
  shows "total_review_entries (analyze_data r2) = total_review_entries (analyze_data r1)"
  unfolding total_formula[OF assms(3)] total_formula[OF assms(4)]
  by (simp add: source_ids_copy[OF assms(1,2)] fed_copy[OF assms(2)])

lemmas report_eval =
  analyze_data_def analyze_submission_def group_review_def dict_append_def dict_incr_def

text \<open>Two snapshots with the same chronokey: feeding the first one again makes it the
  metadata source, and the submission of the other one is dropped with its review.\<close>

theorem C2_counterexample:
  "merge_reviews
     [(''20250101'', [mk_submission ''Y'' ''Other'' []]),
      (''20250101'', [mk_submission ''X'' ''Title'' [mk_review ''r1'' 1 100 6]])]
     = Inr [mk_submission ''X'' ''Title'' [mk_review ''r1'' 1 100 6]]
   \<and> merge_reviews
     [(''20250101'', [mk_submission ''Y'' ''Other'' []]),
      (''20250101'', [mk_submission ''X'' ''Title'' [mk_review ''r1'' 1 100 6]]),
      (''20250101'', [mk_submission ''Y'' ''Other'' []])]
     = Inr [mk_submission ''Y'' ''Other'' []]
   \<and> total_review_entries (analyze_data [mk_submission ''X'' ''Title'' [mk_review ''r1'' 1 100 6]]) = 1
   \<and> total_review_entries (analyze_data [mk_submission ''Y'' ''Other'' []]) = 0"
  by (simp add: merge_eval report_eval)

text \<open>C2 (as the code has it): no review list of the merged output holds two entries with
  the same review id and the same \<open>(version, mdate)\<close> (absent values read as 0); and when
  the chronokeys of the snapshot list are pairwise distinct, appending a second copy of a
  snapshot of the list leaves \<open>total_review_entries\<close> of the merged output unchanged.\<close>

theorem C2_no_duplicate_versions:
  "(merge_reviews snaps = Inr result \<longrightarrow>
      (\<forall>s' \<in> set result. distinct (map entry_key (direct_replies s'))))
   \<and> (distinct (map fst snaps) \<and> x \<in> set snaps \<and>
        merge_reviews snaps = Inr r1 \<and> merge_reviews (snaps @ [x]) = Inr r2 \<longrightarrow>
        total_review_entries (analyze_data r2) = total_review_entries (analyze_data r1))"
  using result_distinct[of snaps result] total_copy[of snaps x r1 r2] by blast

theorem C2_witness:
  "merge_reviews
     [(''20250101'', [mk_submission ''X'' ''Draft'' [mk_review ''r1'' 1 100 6]]),
      (''20250201'', [mk_submission ''X'' ''Final'' [mk_review ''r1'' 1 100 6, mk_review ''r1'' 2 200 8]])]
     = Inr [mk_submission ''X'' ''Final'' [mk_review ''r1'' 1 100 6, mk_review ''r1'' 2 200 8]]
   \<and> merge_reviews
     [(''20250101'', [mk_submission ''X'' ''Draft'' [mk_review ''r1'' 1 100 6]]),
      (''20250201'', [mk_submission ''X'' ''Final'' [mk_review ''r1'' 1 100 6, mk_review ''r1'' 2 200 8]]),
      (''20250101'', [mk_submission ''X'' ''Draft'' [mk_review ''r1'' 1 100 6]])]
     = Inr [mk_submission ''X'' ''Final'' [mk_review ''r1'' 1 100 6, mk_review ''r1'' 2 200 8]]
   \<and> distinct (map entry_key
        (direct_replies (mk_submission ''X'' ''Final'' [mk_review ''r1'' 1 100 6, mk_review ''r1'' 2 200 8])))
   \<and> total_review_entries (analyze_data
        [mk_submission ''X'' ''Final'' [mk_review ''r1'' 1 100 6, mk_review ''r1'' 2 200 8]]) = 2"
proof -
  let ?A = "[(''20250101'', [mk_submission ''X'' ''Draft'' [mk_review ''r1'' 1 100 6]]),
      (''20250201'', [mk_submission ''X'' ''Final'' [mk_review ''r1'' 1 100 6, mk_review ''r1'' 2 200 8]])]"
  let ?x = "(''20250101'', [mk_submission ''X'' ''Draft'' [mk_review ''r1'' 1 100 6]])"
  let ?R = "[mk_submission ''X'' ''Final'' [mk_review ''r1'' 1 100 6, mk_review ''r1'' 2 200 8]]"
  have m1: "merge_reviews ?A = Inr ?R" by (simp add: merge_eval)
  have m2: "merge_reviews (?A @ [?x]) = Inr ?R" by (simp add: merge_eval)
  have d: "distinct (map fst ?A)" by simp
  have x: "?x \<in> set ?A" by simp
  have t: "total_review_entries (analyze_data ?R) = 2"
    by (simp add: merge_eval report_eval)
  have "\<forall>s' \<in> set ?R. distinct (map entry_key (direct_replies s'))"
    and "total_review_entries (analyze_data ?R) = total_review_entries (analyze_data ?R)"
    using C2_no_duplicate_versions[of ?A ?R ?x ?R ?R] m1 m2 d x by blast+
  then show ?thesis using m1 m2 t by simp
qed

section \<open>Monotonicity of the report\<close>

lemma result_ids:
  assumes "merge_reviews snaps = Inr result"
  shows "s_id ` set result = Some ` source_ids snaps"
proof -
  have ne: "snaps \<noteq> []" using assms by (rule merge_reviews_Inr_nonempty)
  let ?rc = "collect_reviews (sort_snapshots snaps)"
  let ?idx = "index_submissions (snd (last (sort_snapshots snaps)))"
  have "set result = (\<lambda>e. snd (attach_reviews ?rc e)) ` set ?idx"
    using assms ne by (auto simp: merge_reviews_eq)
  then have "s_id ` set result = (\<lambda>e. s_id (snd e)) ` set ?idx"
    by (simp add: image_image s_id_attach)
  also have "\<dots> = (\<lambda>e. Some (fst e)) ` set ?idx"
  proof (rule image_cong[OF refl])
    fix e assume "e \<in> set ?idx"
    then show "s_id (snd e) = Some (fst e)"
      using index_submissions_sound[of "fst e" "snd e"] by simp
  qed
  finally show ?thesis by (simp add: source_ids_def image_image)
qed

lemma finite_fed: "finite (fed snaps k)"
proof -
  have "fed snaps k \<subseteq> (\<Union>snap \<in> set snaps. \<Union>s \<in> set (snd snap). set (direct_replies s))"
    by (auto simp: fed_def)
  then show ?thesis by (rule finite_subset) simp
qed

lemma fed_mono: "set A \<subseteq> set B \<Longrightarrow> fed A k \<subseteq> fed B k"
  by (auto simp: fed_def)

lemma finite_source_ids: "finite (source_ids snaps)"
  by (simp add: source_ids_def)

lemma total_mono:
  assumes "set A \<subseteq> set B" "merge_reviews A = Inr ra" "merge_reviews B = Inr rb"
    and "s_id ` set ra \<subseteq> s_id ` set rb"
  shows "total_review_entries (analyze_data ra) \<le> total_review_entries (analyze_data rb)"
proof -
  have "Some ` source_ids A \<subseteq> Some ` source_ids B"
    using assms(4) by (simp add: result_ids[OF assms(2)] result_ids[OF assms(3)])
  then have sub: "source_ids A \<subseteq> source_ids B" by auto
  have "(\<Sum>k \<in> source_ids A. card (entry_key ` fed A k))
      \<le> (\<Sum>k \<in> source_ids A. card (entry_key ` fed B k))"
  proof (rule sum_mono)
    fix k
    have "entry_key ` fed A k \<subseteq> entry_key ` fed B k"
      using fed_mono[OF assms(1), of k] by blast
    then show "card (entry_key ` fed A k) \<le> card (entry_key ` fed B k)"
      by (intro card_mono) (simp_all add: finite_fed)
  qed
  also have "\<dots> \<le> (\<Sum>k \<in> source_ids B. card (entry_key ` fed B k))"
    using finite_source_ids sub by (intro sum_mono2) simp_all
  finally show ?thesis
    by (simp add: total_formula[OF assms(2)] total_formula[OF assms(3)])
qed

lemma result_replies_fed:
  assumes "merge_reviews snaps = Inr result" "s \<in> set result" "s_id s = Some k"
  shows "k \<noteq> []" and "set (direct_replies s) \<subseteq> fed snaps k"
    and "\<forall>r \<in> fed snaps k. \<exists>e \<in> set (direct_replies s). entry_key e = entry_key r"
proof -
  have ne: "snaps \<noteq> []" using assms(1) by (rule merge_reviews_Inr_nonempty)
  let ?rc = "collect_reviews (sort_snapshots snaps)"
  from result_elem[OF ne assms(1,2)] assms(3) obtain coll where
    kc: "k \<noteq> []" "dict_get ?rc k = Some coll" "direct_replies s = all_review_versions coll"
    by auto
  show "k \<noteq> []" by (rule kc(1))
  have eq: "set (direct_replies s) = rc_entries ?rc k"
    using kc(2,3) by (simp add: set_all_review_versions rc_entries_def)
  show "set (direct_replies s) \<subseteq> fed snaps k"
    unfolding eq using collect_reviews_sound[of "sort_snapshots snaps" k] by (simp add: fed_sort)
  show "\<forall>r \<in> fed snaps k. \<exists>e \<in> set (direct_replies s). entry_key e = entry_key r"
    unfolding eq using collect_reviews_covers[OF kc(1), of _ "sort_snapshots snaps"]
    by (simp add: fed_sort)
qed

lemma unique_mono:
  assumes "set A \<subseteq> set B" "merge_reviews A = Inr ra" "merge_reviews B = Inr rb"
    and "s_id ` set ra \<subseteq> s_id ` set rb"
  shows "unique_reviews (analyze_data ra) \<le> unique_reviews (analyze_data rb)"
proof -
  have "(\<Union>s \<in> set ra. review_ids (direct_replies s)) \<subseteq> (\<Union>s \<in> set rb. review_ids (direct_replies s))"
  proof
    fix rid assume "rid \<in> (\<Union>s \<in> set ra. review_ids (direct_replies s))"
    then obtain s r where s: "s \<in> set ra" and r: "r \<in> set (direct_replies s)"
      and rid: "r_id r = Some rid" "rid \<noteq> []"
      by (auto simp: review_ids_def)
    have ne: "A \<noteq> []" using assms(2) by (rule merge_reviews_Inr_nonempty)
    from result_elem[OF ne assms(2) s] obtain k where k: "s_id s = Some k" by blast
    have "r \<in> fed A k" using result_replies_fed(2)[OF assms(2) s k] r by blast
    then have rB: "r \<in> fed B k" using fed_mono[OF assms(1)] by blast
    have "Some k \<in> s_id ` set rb" using assms(4) s k by (metis imageI subsetD)
    then obtain s2 where s2: "s2 \<in> set rb" "s_id s2 = Some k" by (metis imageE)
    from result_replies_fed(3)[OF assms(3) s2] rB obtain e where
      e: "e \<in> set (direct_replies s2)" "entry_key e = entry_key r" by blast
    have "r_id e = Some rid" using e(2) rid(1) by (simp add: entry_key_def)
    then have "rid \<in> review_ids (direct_replies s2)"
      using e(1) rid(2) by (auto simp: review_ids_def) (metis imageI)
    then show "rid \<in> (\<Union>s \<in> set rb. review_ids (direct_replies s))" using s2(1) by blast
  qed
  then show ?thesis
    unfolding unique_reviews_eq by (intro card_mono) simp_all
qed

text \<open>A newer snapshot that lists another submission becomes the metadata source, and the
  submission of the older snapshot is dropped with its review.\<close>

theorem C7_counterexample:
  "merge_reviews [(''20250101'', [mk_submission ''X'' ''Title'' [mk_review ''r1'' 1 100 6]])]
     = Inr [mk_submission ''X'' ''Title'' [mk_review ''r1'' 1 100 6]]
   \<and> merge_reviews
       [(''20250101'', [mk_submission ''X'' ''Title'' [mk_review ''r1'' 1 100 6]]),
        (''20250201'', [mk_submission ''Y'' ''Other'' []])]
     = Inr [mk_submission ''Y'' ''Other'' []]
   \<and> unique_reviews (analyze_data [mk_submission ''X'' ''Title'' [mk_review ''r1'' 1 100 6]]) = 1
   \<and> total_review_entries (analyze_data [mk_submission ''X'' ''Title'' [mk_review ''r1'' 1 100 6]]) = 1
   \<and> unique_reviews (analyze_data [mk_submission ''Y'' ''Other'' []]) = 0
   \<and> total_review_entries (analyze_data [mk_submission ''Y'' ''Other'' []]) = 0"
  by (simp add: merge_eval report_eval)

text \<open>C7 (as the code has it): when B is A plus one snapshot and every submission id of the
  merge of A is still an id of the merge of B (the added snapshot does not become a metadata
  source that lacks a submission), \<open>unique_reviews\<close> and \<open>total_review_entries\<close> of the merge
  of B are at least those of the merge of A.\<close>

theorem C7_monotone_when_no_submission_dropped:
  assumes "mset B = add_mset x (mset A)"
    and "merge_reviews A = Inr ra" "merge_reviews B = Inr rb"
    and "s_id ` set ra \<subseteq> s_id ` set rb"
  shows "unique_reviews (analyze_data ra) \<le> unique_reviews (analyze_data rb)
       \<and> total_review_entries (analyze_data ra) \<le> total_review_entries (analyze_data rb)"
proof -
  have "set_mset (mset A) \<subseteq> set_mset (mset B)" unfolding assms(1) by auto
  then have "set A \<subseteq> set B" by simp
  then show ?thesis using unique_mono total_mono assms(2-4) by blast
qed

theorem C7_witness:
  "mset [(''20250101'', [mk_submission ''X'' ''Draft'' [mk_review ''r1'' 1 100 6]]),
         (''20250201'', [mk_submission ''X'' ''Final'' [mk_review ''r1'' 2 200 8]])]
     = add_mset (''20250201'', [mk_submission ''X'' ''Final'' [mk_review ''r1'' 2 200 8]])
         (mset [(''20250101'', [mk_submission ''X'' ''Draft'' [mk_review ''r1'' 1 100 6]])])
   \<and> merge_reviews [(''20250101'', [mk_submission ''X'' ''Draft'' [mk_review ''r1'' 1 100 6]])]
     = Inr [mk_submission ''X'' ''Draft'' [mk_review ''r1'' 1 100 6]]
   \<and> merge_reviews
        [(''20250101'', [mk_submission ''X'' ''Draft'' [mk_review ''r1'' 1 100 6]]),
         (''20250201'', [mk_submission ''X'' ''Final'' [mk_review ''r1'' 2 200 8]])]
     = Inr [mk_submission ''X'' ''Final'' [mk_review ''r1'' 1 100 6, mk_review ''r1'' 2 200 8]]
   \<and> s_id ` set [mk_submission ''X'' ''Draft'' [mk_review ''r1'' 1 100 6]]
       \<subseteq> s_id ` set [mk_submission ''X'' ''Final'' [mk_review ''r1'' 1 100 6, mk_review ''r1'' 2 200 8]]
   \<and> unique_reviews (analyze_data [mk_submission ''X'' ''Draft'' [mk_review ''r1'' 1 100 6]])
       \<le> unique_reviews (analyze_data
            [mk_submission ''X'' ''Final'' [mk_review ''r1'' 1 100 6, mk_review ''r1'' 2 200 8]])
   \<and> total_review_entries (analyze_data [mk_submission ''X'' ''Draft'' [mk_review ''r1'' 1 100 6]])
       \<le> total_review_entries (analyze_data
            [mk_submission ''X'' ''Final'' [mk_review ''r1'' 1 100 6, mk_review ''r1'' 2 200 8]])"
proof -
  let ?A = "[(''20250101'', [mk_submission ''X'' ''Draft'' [mk_review ''r1'' 1 100 6]])]"
  let ?x = "(''20250201'', [mk_submission ''X'' ''Final'' [mk_review ''r1'' 2 200 8]])"
  let ?B = "[(''20250101'', [mk_submission ''X'' ''Draft'' [mk_review ''r1'' 1 100 6]]),
         (''20250201'', [mk_submission ''X'' ''Final'' [mk_review ''r1'' 2 200 8]])]"
  let ?ra = "[mk_submission ''X'' ''Draft'' [mk_review ''r1'' 1 100 6]]"
  let ?rb = "[mk_submission ''X'' ''Final'' [mk_review ''r1'' 1 100 6, mk_review ''r1'' 2 200 8]]"
  have h1: "mset ?B = add_mset ?x (mset ?A)" by simp
  have h2: "merge_reviews ?A = Inr ?ra" by (simp add: merge_eval)
  have h3: "merge_reviews ?B = Inr ?rb" by (simp add: merge_eval)
  have h4: "s_id ` set ?ra \<subseteq> s_id ` set ?rb" by (simp add: mk_submission_def)
  from C7_monotone_when_no_submission_dropped[OF h1 h2 h3 h4] h1 h2 h3 h4
  show ?thesis by blast
qed

section \<open>The change classifier\<close>

text \<open>The concrete instances: ratings 6 then 8 at mdates 100 and 200 give delta 2 and one
  increase; ratings 6 and 6 at two mdates give one "edited, rating unchanged"; a single
  version gives one "never edited".\<close>

lemma classifier_examples:
  "get_rating_changes [mk_review ''r1'' 1 100 6, mk_review ''r1'' 2 200 8] = [(''r1'', 2)]"
  "count_review_changes_by_type [mk_review ''r1'' 1 100 6, mk_review ''r1'' 2 200 8] = (1, 0, 0, 0)"
  "count_review_changes_by_type [mk_review ''r1'' 1 100 8, mk_review ''r1'' 2 200 6] = (0, 1, 0, 0)"
  "count_review_changes_by_type [mk_review ''r1'' 1 100 6, mk_review ''r1'' 2 200 6] = (0, 0, 1, 0)"
  "count_review_changes_by_type [mk_review ''r1'' 1 100 6] = (0, 0, 0, 1)"
  by (simp_all add: site_eval)

text \<open>C8: a review rated 0 at mdate 100 and 6 at mdate 200 has delta 6 and is an increase
  by the rule of the claim. The test \<open>if reply_id and rating\<close> drops the version rated 0
  from the rating history, so no delta is recorded and the review is counted as
  "edited, rating unchanged".\<close>

theorem C8_zero_rating_dropped:
  "get_rating_changes [mk_review ''r1'' 1 100 0, mk_review ''r1'' 2 200 6] = []
   \<and> count_review_changes_by_type [mk_review ''r1'' 1 100 0, mk_review ''r1'' 2 200 6] = (0, 0, 1, 0)"
  by (simp add: site_eval)

section \<open>Side effects\<close>

lemmas store_eval =
  merge_reviews_store_def collect_reviews_store_def collect_file_store_def attach_store_def
  replies_at_def mk_ref_submission_def example_store_def

lemma example_store_run:
  "merge_reviews_store example_store =
     Inr ([mk_ref_submission ''X'' ''Final'' 0],
          \<lparr>st_files = [(''merged'', [mk_ref_submission ''X'' ''Old'' 1]),
                       (''20250201'', [mk_ref_submission ''X'' ''Final'' 0])],
           st_details = (\<lambda>_. \<lparr>directReplies = None\<rparr>)
             (0 := \<lparr>directReplies = Some [mk_review ''r1'' 1 100 6, mk_review ''r1'' 2 200 8]\<rparr>,
              1 := \<lparr>directReplies = Some [mk_review ''r1'' 1 100 6]\<rparr>),
           st_next = 2\<rparr>)"
  by (simp add: store_eval merge_eval fun_upd_twist)

lemma attach_store_frame:
  assumes "attach_store rc entry (done, h, n) = (done', h', n')"
  shows "n \<le> n' \<and> (\<forall>a. a < n \<and> Some a \<noteq> s_details (snd entry) \<longrightarrow> h' a = h a)"
  using assms
  by (auto simp: attach_store_def split: option.splits)

lemma fold_attach_store_frame:
  "fold (attach_store rc) xs (done, h, n) = (done', h', n') \<Longrightarrow>
     n \<le> n' \<and> (\<forall>a. a < n \<and> Some a \<notin> s_details ` snd ` set xs \<longrightarrow> h' a = h a)"
proof (induction xs arbitrary: "done" h n)
  case Nil
  then show ?case by simp
next
  case (Cons x xs)
  obtain d1 h1 n1 where step: "attach_store rc x (done, h, n) = (d1, h1, n1)"
    by (cases "attach_store rc x (done, h, n)") auto
  have f1: "n \<le> n1 \<and> (\<forall>a. a < n \<and> Some a \<noteq> s_details (snd x) \<longrightarrow> h1 a = h a)"
    using step by (rule attach_store_frame)
  have "fold (attach_store rc) xs (d1, h1, n1) = (done', h', n')"
    using Cons.prems step by simp
  from Cons.IH[OF this]
  have f2: "n1 \<le> n' \<and> (\<forall>a. a < n1 \<and> Some a \<notin> s_details ` snd ` set xs \<longrightarrow> h' a = h1 a)" .
  show ?case
  proof (intro conjI allI impI)
    show "n \<le> n'" using f1 f2 by simp
  next
    fix a assume a: "a < n \<and> Some a \<notin> s_details ` snd ` set (x # xs)"
    then have "h1 a = h a" using f1 by auto
    moreover have "h' a = h1 a" using a f1 f2 by auto
    ultimately show "h' a = h a" by simp
  qed
qed

lemma index_submissions_values: "snd ` set (index_submissions subs) \<subseteq> set subs"
  using index_submissions_sound by fastforce

lemma merge_reviews_store_Inr_nonempty:
  "merge_reviews_store st = Inr p \<Longrightarrow> st_files st \<noteq> []"
  by (auto simp: merge_reviews_store_def sort_snapshots_def latest_submissions_Nil)

lemma merge_reviews_store_frame:
  assumes "merge_reviews_store st = Inr (result, st')"
  shows "st_files st' = sort_snapshots (st_files st)"
    and "\<forall>a. a < st_next st \<and>
             Some a \<notin> s_details ` set (snd (last (sort_snapshots (st_files st)))) \<longrightarrow>
             st_details st' a = st_details st a"
proof -
  have ne: "st_files st \<noteq> []" using assms by (rule merge_reviews_store_Inr_nonempty)
  let ?files = "sort_snapshots (st_files st)"
  let ?idx = "index_submissions (snd (last ?files))"
  let ?rc = "collect_reviews_store (st_details st) ?files"
  let ?final = "fold (attach_store ?rc) ?idx ([], st_details st, st_next st)"
  have st': "st' = \<lparr>st_files = ?files, st_details = fst (snd ?final), st_next = snd (snd ?final)\<rparr>"
    using assms by (simp add: merge_reviews_store_def latest_submissions_sort[OF ne] Let_def)
  show "st_files st' = ?files" by (simp add: st')
  have "?final = (fst ?final, fst (snd ?final), snd (snd ?final))" by simp
  from fold_attach_store_frame[OF this]
  have fr: "\<forall>a. a < st_next st \<and> Some a \<notin> s_details ` snd ` set ?idx \<longrightarrow>
      fst (snd ?final) a = st_details st a" by blast
  show "\<forall>a. a < st_next st \<and>
             Some a \<notin> s_details ` set (snd (last (sort_snapshots (st_files st)))) \<longrightarrow>
             st_details st' a = st_details st a"
  proof (intro allI impI)
    fix a assume a: "a < st_next st \<and> Some a \<notin> s_details ` set (snd (last ?files))"
    have "s_details ` snd ` set ?idx \<subseteq> s_details ` set (snd (last ?files))"
      using index_submissions_values[of "snd (last ?files)"] by blast
    then have "Some a \<notin> s_details ` snd ` set ?idx" using a by blast
    then show "st_details st' a = st_details st a" using fr a by (simp add: st')
  qed
qed

text \<open>The call on the example store: the caller's list comes back reordered, and the
  \<open>details\<close> dict of the input submission that was the metadata source holds the merged
  review list.\<close>

theorem C5_counterexample:
  "merge_reviews_store example_store = Inr ([mk_ref_submission ''X'' ''Final'' 0], example_store_after)
   \<and> st_files example_store =
        [(''20250201'', [mk_ref_submission ''X'' ''Final'' 0]),
         (''merged'', [mk_ref_submission ''X'' ''Old'' 1])]
   \<and> st_files example_store_after =
        [(''merged'', [mk_ref_submission ''X'' ''Old'' 1]),
         (''20250201'', [mk_ref_submission ''X'' ''Final'' 0])]
   \<and> replies_at (st_details example_store) (mk_ref_submission ''X'' ''Final'' 0)
        = [mk_review ''r1'' 2 200 8]
   \<and> replies_at (st_details example_store_after) (mk_ref_submission ''X'' ''Final'' 0)
        = [mk_review ''r1'' 1 100 6, mk_review ''r1'' 2 200 8]"
  using example_store_run
  by (simp add: example_store_after_def example_store_def replies_at_def mk_ref_submission_def)

text \<open>C5 (as the code has it): the call sorts the caller's list in place, so that afterwards
  it holds the same snapshots (with the same submission records) in sort order; and every
  \<open>details\<close> dict that is not the \<open>details\<close> of a submission of the metadata source is
  left as it was.\<close>

theorem C5_sorts_in_place_and_frames:
  assumes "merge_reviews_store st = Inr (result, st')"
  shows "st_files st' = sort_snapshots (st_files st)
       \<and> mset (st_files st') = mset (st_files st)
       \<and> (\<forall>a. a < st_next st \<and>
               Some a \<notin> s_details ` set (snd (last (sort_snapshots (st_files st)))) \<longrightarrow>
               st_details st' a = st_details st a)"
  using merge_reviews_store_frame[OF assms] by (simp add: sort_snapshots_def)

theorem C5_witness:
  "merge_reviews_store example_store = Inr ([mk_ref_submission ''X'' ''Final'' 0], example_store_after)
   \<and> st_files example_store_after = sort_snapshots (st_files example_store)
   \<and> mset (st_files example_store_after) = mset (st_files example_store)
   \<and> (1::nat) < st_next example_store
   \<and> Some 1 \<notin> s_details ` set (snd (last (sort_snapshots (st_files example_store))))
   \<and> st_details example_store_after 1 = st_details example_store 1"
proof -
  have run: "merge_reviews_store example_store
      = Inr ([mk_ref_submission ''X'' ''Final'' 0], example_store_after)"
    using example_store_run by (simp add: example_store_after_def)
  have h1: "(1::nat) < st_next example_store" by (simp add: example_store_def)
  have h2: "Some 1 \<notin> s_details ` set (snd (last (sort_snapshots (st_files example_store))))"
    by (simp add: example_store_def sort_snapshots_def snapshot_key_def mk_ref_submission_def)
  from C5_sorts_in_place_and_frames[OF run] h1 h2 run show ?thesis by blast
qed

section \<open>The store model against the model on trees\<close>

lemma insort_key_map:
  assumes "\<And>x. f (g x) = f' x"
  shows "insort_key f (g x) (map g ys) = map g (insort_key f' x ys)"
  by (induction ys) (simp_all add: assms)

lemma sort_key_map:
  assumes "\<And>x. f (g x) = f' x"
  shows "sort_key f (map g xs) = map g (sort_key f' xs)"
  by (induction xs) (simp_all add: insort_key_map[of f g f', OF assms])

lemma sort_snapshots_view:
  "sort_snapshots (view_files h files) = view_files h (sort_snapshots files)"
  unfolding sort_snapshots_def view_files_def
  by (rule sort_key_map) (simp add: snapshot_key_def)

lemma view_files_Nil_iff: "view_files h files = [] \<longleftrightarrow> files = []"
  by (simp add: view_files_def)

lemma last_view_files:
  "files \<noteq> [] \<Longrightarrow> snd (last (view_files h files)) = map (deref h) (snd (last files))"
  by (simp add: view_files_def last_map)

lemma deref_fields [simp]:
  "s_id (deref h s) = s_id s" "s_number (deref h s) = s_number s"
  by (simp_all add: deref_def)

lemma dict_set_map_values:
  "dict_set k (g v) (map (\<lambda>e. (fst e, g (snd e))) m) = map (\<lambda>e. (fst e, g (snd e))) (dict_set k v m)"
  by (induction m) simp_all

lemma index_submission_deref:
  "index_submission (deref h s) (map (deref_entry h) m) = map (deref_entry h) (index_submission s m)"
  unfolding index_submission_def deref_entry_def[abs_def]
  by (cases "s_id s") (simp_all add: dict_set_map_values[of _ "deref h"])

lemma index_submissions_deref:
  "index_submissions (map (deref h) subs) = map (deref_entry h) (index_submissions subs)"
proof -
  have "\<And>m. fold index_submission (map (deref h) subs) (map (deref_entry h) m)
           = map (deref_entry h) (fold index_submission subs m)"
  proof (induction subs)
    case Nil
    show ?case by simp
  next
    case (Cons s subs)
    show ?case using Cons[of "index_submission s m"] by (simp add: index_submission_deref)
  qed
  from this[of "[]"] show ?thesis by (simp add: index_submissions_def)
qed

lemma direct_replies_deref: "direct_replies (deref h s) = replies_at h s"
  by (cases "s_details s") (simp_all add: direct_replies_def replies_at_def deref_def)

lemma collect_file_view:
  "collect_file (fst file, map (deref h) (snd file)) rc = collect_file_store h file rc"
  by (simp add: collect_file_def collect_file_store_def fold_map comp_def direct_replies_deref)

lemma collect_reviews_view:
  "collect_reviews (view_files h files) = collect_reviews_store h files"
proof -
  have "\<And>rc. fold collect_file (view_files h files) rc = fold (collect_file_store h) files rc"
  proof (induction files)
    case Nil
    show ?case by (simp add: view_files_def)
  next
    case (Cons f files)
    have "fold collect_file (view_files h (f # files)) rc
        = fold collect_file (view_files h files) (collect_file (fst f, map (deref h) (snd f)) rc)"
      by (simp add: view_files_def)
    then show ?case using Cons by (simp add: collect_file_view)
  qed
  then show ?thesis by (simp add: collect_reviews_def collect_reviews_store_def)
qed

lemma attach_store_one:
  "attach_store rc e (done, h, n) =
     (done @ [fst (attach_one rc e h n)], fst (snd (attach_one rc e h n)), snd (snd (attach_one rc e h n)))"
  by (simp add: attach_store_def attach_one_def split: option.splits)

lemma fold_attach_store_done:
  "fold (attach_store rc) xs (done, h, n) =
     (done @ fst (fold (attach_store rc) xs ([], h, n)),
      snd (fold (attach_store rc) xs ([], h, n)))"
proof (induction xs arbitrary: "done" h n)
  case Nil
  show ?case by simp
next
  case (Cons x xs)
  let ?y = "fst (attach_one rc x h n)"
  let ?h = "fst (snd (attach_one rc x h n))"
  let ?n = "snd (snd (attach_one rc x h n))"
  have "fold (attach_store rc) (x # xs) (done, h, n) = fold (attach_store rc) xs (done @ [?y], ?h, ?n)"
    by (simp add: attach_store_one)
  also have "\<dots> = ((done @ [?y]) @ fst (fold (attach_store rc) xs ([], ?h, ?n)),
                    snd (fold (attach_store rc) xs ([], ?h, ?n)))"
    by (rule Cons.IH)
  finally have a: "fold (attach_store rc) (x # xs) (done, h, n)
      = (done @ ?y # fst (fold (attach_store rc) xs ([], ?h, ?n)),
         snd (fold (attach_store rc) xs ([], ?h, ?n)))" by simp
  have "fold (attach_store rc) (x # xs) ([], h, n) = fold (attach_store rc) xs ([?y], ?h, ?n)"
    by (simp add: attach_store_one)
  also have "\<dots> = ([?y] @ fst (fold (attach_store rc) xs ([], ?h, ?n)),
                    snd (fold (attach_store rc) xs ([], ?h, ?n)))"
    by (rule Cons.IH)
  finally have b: "fold (attach_store rc) (x # xs) ([], h, n)
      = (?y # fst (fold (attach_store rc) xs ([], ?h, ?n)),
         snd (fold (attach_store rc) xs ([], ?h, ?n)))" by simp
  show ?case unfolding a b by simp
qed

lemma in_set_map_filter:
  "y \<in> set (List.map_filter f xs) \<longleftrightarrow> (\<exists>x \<in> set xs. f x = Some y)"
  by (induction xs) (auto split: option.splits)

lemma deref_cong:
  "(\<And>a. s_details s = Some a \<Longrightarrow> h a = h' a) \<Longrightarrow> deref h s = deref h' s"
  by (cases "s_details s") (simp_all add: deref_def)

lemma attach_one_value:
  "deref_entry (fst (snd (attach_one rc e h n))) (fst (attach_one rc e h n))
     = attach_reviews rc (deref_entry h e)"
proof (cases "dict_get rc (fst e)")
  case None
  then show ?thesis by (simp add: attach_one_def attach_reviews_def deref_entry_def)
next
  case (Some coll)
  show ?thesis
  proof (cases "s_details (snd e)")
    case None
    then show ?thesis using Some
      by (simp add: attach_one_def attach_reviews_def deref_entry_def deref_def Let_def)
  next
    case (Some a)
    then show ?thesis using \<open>dict_get rc (fst e) = Some coll\<close>
      by (simp add: attach_one_def attach_reviews_def deref_entry_def deref_def Let_def)
  qed
qed

lemma attach_one_next: "n \<le> snd (snd (attach_one rc e h n))"
  by (simp add: attach_one_def split: option.splits)

lemma attach_one_frame:
  "a < n \<Longrightarrow> Some a \<noteq> s_details (snd e) \<Longrightarrow> fst (snd (attach_one rc e h n)) a = h a"
  by (auto simp: attach_one_def split: option.splits)

lemma attach_one_ref:
  assumes "s_details (snd (fst (attach_one rc e h n))) = Some b"
  shows "s_details (snd e) = Some b \<or> (b = n \<and> n < snd (snd (attach_one rc e h n)))"
  using assms by (auto simp: attach_one_def split: option.splits)

lemma fold_attach_value:
  assumes "distinct (List.map_filter s_details (map snd xs))"
    and "\<forall>e \<in> set xs. \<forall>a. s_details (snd e) = Some a \<longrightarrow> a < n"
  shows "map (deref_entry (fst (snd (fold (attach_store rc) xs ([], h, n)))))
             (fst (fold (attach_store rc) xs ([], h, n)))
       = map (attach_reviews rc) (map (deref_entry h) xs)"
  using assms
proof (induction xs arbitrary: h n)
  case Nil
  show ?case by simp
next
  case (Cons x xs)
  let ?y = "fst (attach_one rc x h n)"
  let ?h = "fst (snd (attach_one rc x h n))"
  let ?n = "snd (snd (attach_one rc x h n))"
  let ?rest = "fold (attach_store rc) xs ([], ?h, ?n)"
  let ?h1 = "fst (snd ?rest)"
  have run: "fold (attach_store rc) (x # xs) ([], h, n) = (?y # fst ?rest, snd ?rest)"
    using fold_attach_store_done[of rc xs "[?y]" ?h ?n] by (simp add: attach_store_one)
  have nn: "n \<le> ?n" by (rule attach_one_next)
  have dx: "\<And>a. s_details (snd x) = Some a \<Longrightarrow> Some a \<notin> s_details ` snd ` set xs"
  proof -
    fix a assume a: "s_details (snd x) = Some a"
    then have "a \<notin> set (List.map_filter s_details (map snd xs))"
      using Cons.prems(1) by simp
    then have "\<not> (\<exists>s \<in> set (map snd xs). s_details s = Some a)"
      unfolding in_set_map_filter .
    then show "Some a \<notin> s_details ` snd ` set xs" by force
  qed
  have dxs: "distinct (List.map_filter s_details (map snd xs))"
    using Cons.prems(1) by (cases "s_details (snd x)") simp_all
  have bound: "\<forall>e \<in> set xs. \<forall>a. s_details (snd e) = Some a \<longrightarrow> a < ?n"
    using Cons.prems(2) nn by fastforce
  have ih: "map (deref_entry ?h1) (fst ?rest) = map (attach_reviews rc) (map (deref_entry ?h) xs)"
    using dxs bound by (rule Cons.IH)
  have same: "map (deref_entry ?h) xs = map (deref_entry h) xs"
  proof (rule map_cong[OF refl])
    fix e assume e: "e \<in> set xs"
    have "deref ?h (snd e) = deref h (snd e)"
    proof (rule deref_cong)
      fix a assume a: "s_details (snd e) = Some a"
      then have "a < n" using Cons.prems(2) e by simp
      moreover have "Some a \<noteq> s_details (snd x)"
        using dx[of a] a e by (metis imageI)
      ultimately show "?h a = h a" by (rule attach_one_frame)
    qed
    then show "deref_entry ?h e = deref_entry h e" by (simp add: deref_entry_def)
  qed
  have frame: "\<forall>a. a < ?n \<and> Some a \<notin> s_details ` snd ` set xs \<longrightarrow> ?h1 a = ?h a"
  proof -
    have "?rest = (fst ?rest, ?h1, snd (snd ?rest))" by simp
    from fold_attach_store_frame[OF this] show ?thesis by blast
  qed
  have keep: "deref ?h1 (snd ?y) = deref ?h (snd ?y)"
  proof (rule deref_cong)
    fix b assume b: "s_details (snd ?y) = Some b"
    from attach_one_ref[OF b] have "b < ?n \<and> Some b \<notin> s_details ` snd ` set xs"
    proof
      assume old: "s_details (snd x) = Some b"
      then have "b < n" using Cons.prems(2) by simp
      then show ?thesis using dx[OF old] nn by simp
    next
      assume fresh: "b = n \<and> n < ?n"
      have "Some n \<notin> s_details ` snd ` set xs"
      proof
        assume "Some n \<in> s_details ` snd ` set xs"
        then obtain e where "e \<in> set xs" "s_details (snd e) = Some n" by force
        then show False using Cons.prems(2) by fastforce
      qed
      then show ?thesis using fresh by simp
    qed
    then show "?h1 b = ?h b" using frame by blast
  qed
  have head: "deref_entry ?h1 ?y = attach_reviews rc (deref_entry h x)"
    using keep attach_one_value[of rc x h n] by (simp add: deref_entry_def)
  show ?case unfolding run using head ih same by simp
qed

text \<open>On a store in which no two entries of \<open>merged_submissions\<close> share a \<open>details\<close> dict (as in
  any deserialized JSON document), the submissions returned by the call, read through the
  store after the call, are what \<open>merge_reviews\<close> returns on the trees the store held at the
  call.\<close>

lemma merge_reviews_store_refines:
  assumes run: "merge_reviews_store st = Inr (result, st')"
    and noalias: "distinct (source_refs st)"
    and wf: "\<forall>a \<in> set (source_refs st). a < st_next st"
  shows "merge_reviews (view_files (st_details st) (st_files st))
       = Inr (map (deref (st_details st')) result)"
proof -
  have ne: "st_files st \<noteq> []" using run by (rule merge_reviews_store_Inr_nonempty)
  let ?h = "st_details st"
  let ?files = "sort_snapshots (st_files st)"
  let ?idx = "index_submissions (snd (last ?files))"
  let ?rc = "collect_reviews_store ?h ?files"
  let ?final = "fold (attach_store ?rc) ?idx ([], ?h, st_next st)"
  have res: "result = sort_key (\<lambda>s. get0 (s_number s)) (map snd (fst ?final))"
    and h': "st_details st' = fst (snd ?final)"
    using run by (auto simp: merge_reviews_store_def latest_submissions_sort[OF ne] Let_def)
  have fne: "?files \<noteq> []" using ne by (simp add: sort_snapshots_Nil_iff)
  have vne: "view_files ?h (st_files st) \<noteq> []" using ne by (simp add: view_files_Nil_iff)
  have d: "distinct (List.map_filter s_details (map snd ?idx))"
    using noalias by (simp add: source_refs_def)
  have b: "\<forall>e \<in> set ?idx. \<forall>a. s_details (snd e) = Some a \<longrightarrow> a < st_next st"
  proof (intro ballI allI impI)
    fix e a assume "e \<in> set ?idx" "s_details (snd e) = Some a"
    then have "\<exists>s \<in> set (map snd ?idx). s_details s = Some a" by force
    then have "a \<in> set (source_refs st)"
      unfolding source_refs_def in_set_map_filter .
    then show "a < st_next st" using wf by blast
  qed
  have att: "map (deref_entry (st_details st')) (fst ?final)
      = map (attach_reviews ?rc) (map (deref_entry ?h) ?idx)"
    unfolding h' using d b by (rule fold_attach_value)
  have "merge_reviews (view_files ?h (st_files st))
      = Inr (sort_key (\<lambda>s. get0 (s_number s))
          (map snd (map (attach_reviews ?rc) (map (deref_entry ?h) ?idx))))"
    by (simp add: merge_reviews_eq[OF vne] sort_snapshots_view last_view_files[OF fne]
        index_submissions_deref collect_reviews_view)
  also have "map snd (map (attach_reviews ?rc) (map (deref_entry ?h) ?idx))
      = map (deref (st_details st')) (map snd (fst ?final))"
    unfolding att[symmetric] by (simp add: deref_entry_def comp_def)
  also have "sort_key (\<lambda>s. get0 (s_number s)) (map (deref (st_details st')) (map snd (fst ?final)))
      = map (deref (st_details st')) result"
    unfolding res by (rule sort_key_map) simp
  finally show ?thesis .
qed

section \<open>The classifier on the versions of one review\<close>

lemma count_step_commute:
  "count_step ch rv a (count_step ch rv b c) = count_step ch rv b (count_step ch rv a c)"
  by (cases c) (simp add: count_step_def Let_def)

lemma count_changes_perm:
  assumes "mset ids = mset ids'"
  shows "fold (count_step ch rv) ids c = fold (count_step ch rv) ids' c"
proof -
  have "fold (count_step ch rv) ids = fold (count_step ch rv) ids'"
    by (rule fold_multiset_equiv[OF _ assms]) (simp add: fun_eq_iff count_step_commute)
  then show ?thesis by simp
qed

lemma rating_step_rated:
  assumes "r_id r = Some rid" "rid \<noteq> []" "rating_of r \<noteq> 0"
  shows "rating_step r acc = dict_append rid (history_entry r) acc"
  using assms
  by (auto simp: rating_step_def rating_of_def history_entry_def split: option.splits)

lemma fold_dict_append_same:
  "fold (\<lambda>r. dict_append k (g r)) rs [(k, xs)] = [(k, xs @ map g rs)]"
  by (induction rs arbitrary: xs) (simp_all add: dict_append_def dict_get_def)

lemma fold_dict_append_Nil:
  "fold (\<lambda>r. dict_append k (g r)) rs [] = (if rs = [] then [] else [(k, map g rs)])"
proof (cases rs)
  case Nil
  then show ?thesis by simp
next
  case (Cons r rs')
  have "fold (\<lambda>r. dict_append k (g r)) (r # rs') [] = fold (\<lambda>r. dict_append k (g r)) rs' [(k, [g r])]"
    by (simp add: dict_append_def dict_get_def)
  then show ?thesis using Cons by (simp add: fold_dict_append_same)
qed

lemma rating_history_single:
  assumes "rated_versions_of rid rs"
  shows "fold rating_step rs [] = (if rs = [] then [] else [(rid, map history_entry rs)])"
proof -
  have "fold rating_step rs [] = fold (\<lambda>r. dict_append rid (history_entry r)) rs []"
  proof (rule fold_cong[OF refl refl])
    fix r assume "r \<in> set rs"
    then have "r_id r = Some rid" "rid \<noteq> []" "rating_of r \<noteq> 0"
      using assms by (auto simp: rated_versions_of_def list_all_iff)
    then show "rating_step r = (\<lambda>acc. dict_append rid (history_entry r) acc)"
      by (simp add: fun_eq_iff rating_step_rated)
  qed
  then show ?thesis by (simp add: fold_dict_append_Nil)
qed

lemma sorted_history_single:
  "sort_key e_date (map history_entry rs) = map history_entry (sort_key (\<lambda>r. get0 (r_mdate r)) rs)"
  by (rule sort_key_map) (simp add: history_entry_def)

lemma history_change_single:
  assumes "1 < length rs"
  shows "history_change (map history_entry rs) =
           Some (rating_of (last (sort_key (\<lambda>r. get0 (r_mdate r)) rs))
               - rating_of (hd (sort_key (\<lambda>r. get0 (r_mdate r)) rs)))"
proof -
  let ?s = "sort_key (\<lambda>r. get0 (r_mdate r)) rs"
  have ne: "?s \<noteq> []" using assms by (metis length_sort list.size(3) not_less_zero)
  have "e_rating (last (map history_entry ?s)) = rating_of (last ?s)"
    using ne by (simp add: last_map history_entry_def)
  moreover have "e_rating (hd (map history_entry ?s)) = rating_of (hd ?s)"
    using ne by (simp add: hd_map history_entry_def)
  ultimately show ?thesis
    using assms by (simp add: history_change_def sorted_history_single Let_def)
qed

lemma rating_changes_single:
  assumes "rated_versions_of rid rs" "1 < length rs"
  shows "get_rating_changes rs =
           [(rid, rating_of (last (sort_key (\<lambda>r. get0 (r_mdate r)) rs))
                - rating_of (hd (sort_key (\<lambda>r. get0 (r_mdate r)) rs)))]"
proof -
  have ne: "rs \<noteq> []" using assms(2) by auto
  show ?thesis
    using ne by (simp add: get_rating_changes_def rating_history_single[OF assms(1)]
        history_change_single[OF assms(2)])
qed

lemma official_step_rated:
  assumes "r_id r = Some rid" "rid \<noteq> []" "is_official r" "get0 (r_mdate r) \<noteq> 0"
  shows "official_step r acc = (set_add rid (fst acc), dict_append rid (get0 (r_mdate r)) (snd acc))"
  using assms by (simp add: official_step_def Let_def)

lemma fold_official_same:
  "fold (\<lambda>r acc. (set_add k (fst acc), dict_append k (g r) (snd acc))) rs ([k], [(k, xs)])
     = ([k], [(k, xs @ map g rs)])"
  by (induction rs arbitrary: xs) (simp_all add: dict_append_def dict_get_def set_add_def)

lemma official_single:
  assumes "rated_versions_of rid rs" "rs \<noteq> []"
  shows "fold official_step rs ([], []) = ([rid], [(rid, map (\<lambda>r. get0 (r_mdate r)) rs)])"
proof -
  let ?f = "\<lambda>r acc. (set_add rid (fst acc), dict_append rid (get0 (r_mdate r)) (snd acc))"
  have "fold official_step rs ([], []) = fold ?f rs ([], [])"
  proof (rule fold_cong[OF refl refl])
    fix r assume "r \<in> set rs"
    then have "r_id r = Some rid" "rid \<noteq> []" "is_official r" "get0 (r_mdate r) \<noteq> 0"
      using assms(1) by (auto simp: rated_versions_of_def list_all_iff)
    then show "official_step r = ?f r"
      by (simp add: fun_eq_iff official_step_rated)
  qed
  also have "\<dots> = ([rid], [(rid, map (\<lambda>r. get0 (r_mdate r)) rs)])"
  proof (cases rs)
    case Nil
    then show ?thesis using assms(2) by simp
  next
    case (Cons r rs')
    have "fold ?f (r # rs') ([], []) = fold ?f rs' ([rid], [(rid, [get0 (r_mdate r)])])"
      by (simp add: set_add_def dict_append_def dict_get_def)
    then show ?thesis using Cons by (simp add: fold_official_same)
  qed
  finally show ?thesis .
qed

text \<open>On the versions of one official review, all rated with a non-zero rating: edited
  means two different mdates, and then the class is the sign of the rating at the latest
  mdate minus the rating at the earliest.\<close>

lemma classifier_single_review:
  assumes "rated_versions_of rid rs" "rs \<noteq> []"
  shows "count_review_changes_by_type rs =
     (if 1 < card (set (map (\<lambda>r. get0 (r_mdate r)) rs)) then
        let delta = rating_of (last (sort_key (\<lambda>r. get0 (r_mdate r)) rs))
                  - rating_of (hd (sort_key (\<lambda>r. get0 (r_mdate r)) rs))
        in if delta > 0 then (1, 0, 0, 0) else if delta < 0 then (0, 1, 0, 0) else (0, 0, 1, 0)
      else (0, 0, 0, 1))"
proof (cases "1 < card (set (map (\<lambda>r. get0 (r_mdate r)) rs))")
  case False
  then show ?thesis
    by (simp add: count_review_changes_by_type_def official_single[OF assms] count_step_def
        dict_get_def Let_def)
next
  case True
  have "card (set (map (\<lambda>r. get0 (r_mdate r)) rs)) \<le> length rs"
    by (metis card_length length_map)
  then have len: "1 < length rs" using True by simp
  show ?thesis
    using True
    by (simp add: count_review_changes_by_type_def official_single[OF assms]
        rating_changes_single[OF assms(1) len] count_step_def dict_get_def Let_def)
qed

end
